theory Spec2Isabelle
  imports Main "HOL-Library.Word"
begin

unbundle bit_operations_syntax

section \<open>The cache simulator csim.c\<close>

text \<open>
  A shallow embedding of \<^verbatim>\<open>csim.c\<close>: the cache store (\<^verbatim>\<open>initCache\<close>), the access
  engine (\<^verbatim>\<open>accessData\<close>) and the trace driver (\<^verbatim>\<open>replayTrace\<close>).  The globals
  \<^verbatim>\<open>s\<close>, \<^verbatim>\<open>b\<close> and \<^verbatim>\<open>E\<close> are set once from the command line and never change; they
  are parameters of every function here, as natural numbers (\<^verbatim>\<open>main\<close> refuses to run
  when one of them is 0; negative values are not modelled).  The mutable globals (the
  cache and the three counters) are the record \<open>sim_state\<close>, passed in and returned.
  Every step of the C code whose behaviour the C standard leaves undefined is a branch
  returning an \<open>error\<close>: a double that does not fit the integer type it is converted to,
  an increment of an \<^verbatim>\<open>int\<close> equal to \<^verbatim>\<open>INT_MAX\<close>, and an index outside the allocated
  arrays.  The valid flag is the character \<^verbatim>\<open>'0'\<close> or \<^verbatim>\<open>'1'\<close>, as in the code.
\<close>

subsection \<open>Data\<close>

type_synonym mem_addr_t = "64 word"

record cache_line_t =
  valid :: char
  tag :: mem_addr_t
  counter :: int

type_synonym cache_set_t = "cache_line_t list"
type_synonym cache_t = "cache_set_t list"

record sim_state =
  cache :: cache_t
  miss_count :: int
  hit_count :: int
  eviction_count :: int

datatype error =
    Conversion_Out_Of_Range
  | Signed_Overflow
  | Set_Out_Of_Bounds
  | Line_Out_Of_Bounds int

definition INT_MAX :: int where
  "INT_MAX = 2147483647"

subsection \<open>Double precision on whole numbers\<close>

text \<open>
  \<^verbatim>\<open>pow(2, n)\<close> is the double \<open>2 ^ n\<close>, exactly.  The other double operations of
  \<^verbatim>\<open>accessData\<close> are a conversion of an unsigned 64-bit value to double and
  subtractions whose exact results are whole numbers; each rounds its exact result to the
  nearest value with a 53-bit significand, ties to the even significand.
\<close>

fun bit_len :: "nat \<Rightarrow> nat" where
  "bit_len n = (if n = 0 then 0 else Suc (bit_len (n div 2)))"

declare bit_len.simps [simp del]

definition double_of_nat :: "nat \<Rightarrow> nat" where
  "double_of_nat n =
     (if bit_len n \<le> 53 then n
      else let e = bit_len n - 53;
               q = n div 2 ^ e;
               r = n mod 2 ^ e;
               h = 2 ^ (e - 1)
           in if r < h \<or> (r = h \<and> even q) then q * 2 ^ e else (q + 1) * 2 ^ e)"

subsection \<open>initCache\<close>

definition empty_line :: cache_line_t where
  "empty_line = \<lparr>valid = CHR ''0'', tag = 0, counter = 0\<rparr>"

text \<open>
  \<^verbatim>\<open>S = pow(2, s)\<close> converts a double to \<^verbatim>\<open>int\<close>: undefined from \<open>2 ^ 31\<close> on.
  Allocation failure is not modelled.
\<close>

definition initCache :: "nat \<Rightarrow> nat \<Rightarrow> error + cache_t" where
  "initCache s E =
     (if 31 \<le> s then Inl Conversion_Out_Of_Range
      else Inr (replicate (2 ^ s) (replicate E empty_line)))"

definition initial_state :: "cache_t \<Rightarrow> sim_state" where
  "initial_state c = \<lparr>cache = c, miss_count = 0, hit_count = 0, eviction_count = 0\<rparr>"

subsection \<open>accessData\<close>

text \<open>
  Lines 137 to 149: the mask, the set number and the tag.
  \<^verbatim>\<open>mem_addr_t mask = pow(2, s + b)\<close> is undefined when the power does not fit 64 bits;
  \<^verbatim>\<open>mask -= (pow(2, b) - 1)\<close> is computed in double and converted back.
\<close>

definition set_mask :: "nat \<Rightarrow> nat \<Rightarrow> error + mem_addr_t" where
  "set_mask s b =
     (if 64 \<le> s + b then Inl Conversion_Out_Of_Range
      else let msk = (2 ^ (s + b) :: mem_addr_t);
               msk = msk - 1;
               d = int (double_of_nat (unat msk)) - int (double_of_nat (2 ^ b - 1))
           in if d < 0 \<or> 2 ^ 64 \<le> double_of_nat (nat d) then Inl Conversion_Out_Of_Range
              else Inr (word_of_nat (double_of_nat (nat d))))"

definition decompose :: "nat \<Rightarrow> nat \<Rightarrow> mem_addr_t \<Rightarrow> error + (mem_addr_t \<times> mem_addr_t)" where
  "decompose s b addr =
     (case set_mask s b of
        Inl e \<Rightarrow> Inl e
      | Inr msk \<Rightarrow>
          let targSet = addr AND msk;
              targSet = drop_bit b targSet;
              targTag = drop_bit (s + b) addr
          in Inr (targSet, targTag))"

text \<open>Lines 155 to 175: one pass of the loop body, on \<open>(min, max, minIndex)\<close>.\<close>

definition scan_step :: "cache_set_t \<Rightarrow> nat \<Rightarrow> int \<times> int \<times> int \<Rightarrow> int \<times> int \<times> int" where
  "scan_step lines j = (\<lambda>(mn, mx, minIndex).
     let (mn', minIndex') =
           (if counter (lines ! j) < mn then (counter (lines ! j), int j) else (mn, minIndex));
         mx' = (if counter (lines ! j) > mx then counter (lines ! j) else mx)
     in (mn', mx', minIndex'))"

definition scan_min_max :: "cache_set_t \<Rightarrow> nat \<Rightarrow> int \<times> int \<times> int" where
  "scan_min_max lines E = fold (scan_step lines) [0..<E] (5000, 0, -1)"

text \<open>Lines 178 to 191 and 204 to 220: the first index at which the loop breaks.\<close>

definition find_hit :: "cache_set_t \<Rightarrow> nat \<Rightarrow> mem_addr_t \<Rightarrow> nat option" where
  "find_hit lines E targTag =
     find (\<lambda>i. valid (lines ! i) = CHR ''1'' \<and> tag (lines ! i) = targTag) [0..<E]"

definition find_empty :: "cache_set_t \<Rightarrow> nat \<Rightarrow> nat option" where
  "find_empty lines E = find (\<lambda>k. valid (lines ! k) = CHR ''0'') [0..<E]"

definition set_line :: "sim_state \<Rightarrow> nat \<Rightarrow> nat \<Rightarrow> cache_line_t \<Rightarrow> sim_state" where
  "set_line st i j l = st\<lparr>cache := (cache st)[i := (cache st ! i)[j := l]]\<rparr>"

definition accessData :: "nat \<Rightarrow> nat \<Rightarrow> nat \<Rightarrow> mem_addr_t \<Rightarrow> sim_state \<Rightarrow> error + sim_state" where
  "accessData s b E addr st =
     (case decompose s b addr of
        Inl e \<Rightarrow> Inl e
      | Inr (targSet, targTag) \<Rightarrow>
          if length (cache st) \<le> unat targSet then Inl Set_Out_Of_Bounds
          else if length (cache st ! unat targSet) < E then Inl Set_Out_Of_Bounds
          else
            (let lines = cache st ! unat targSet;
                 (mn, mx, minIndex) = scan_min_max lines E
             in (case find_hit lines E targTag of
                   Some i \<Rightarrow>
                     if hit_count st = INT_MAX \<or> mx = INT_MAX then Inl Signed_Overflow
                     else Inr (set_line (st\<lparr>hit_count := hit_count st + 1\<rparr>) (unat targSet) i
                                 ((lines ! i)\<lparr>counter := mx + 1\<rparr>))
                 | None \<Rightarrow>
                     if miss_count st = INT_MAX then Inl Signed_Overflow
                     else
                       (let st1 = st\<lparr>miss_count := miss_count st + 1\<rparr>
                        in (case find_empty lines E of
                              Some k \<Rightarrow>
                                if mx = INT_MAX then Inl Signed_Overflow
                                else Inr (set_line st1 (unat targSet) k
                                            \<lparr>valid = CHR ''1'', tag = targTag, counter = mx + 1\<rparr>)
                            | None \<Rightarrow>
                                if eviction_count st = INT_MAX then Inl Signed_Overflow
                                else if minIndex < 0 \<or> int E \<le> minIndex
                                  then Inl (Line_Out_Of_Bounds minIndex)
                                else if mx = INT_MAX then Inl Signed_Overflow
                                else Inr (set_line
                                            (st1\<lparr>eviction_count := eviction_count st + 1\<rparr>)
                                            (unat targSet) (nat minIndex)
                                            ((lines ! nat minIndex)
                                               \<lparr>tag := targTag, counter := mx + 1\<rparr>)))))))"

subsection \<open>replayTrace\<close>

text \<open>
  A trace line, once read, is the operation character \<^verbatim>\<open>buf[1]\<close> and the parsed
  address.  Lines whose character is not S, L or M are skipped.
\<close>

fun replayTrace :: "nat \<Rightarrow> nat \<Rightarrow> nat \<Rightarrow> (char \<times> mem_addr_t) list \<Rightarrow> sim_state \<Rightarrow> error + sim_state" where
  "replayTrace s b E [] st = Inr st"
| "replayTrace s b E ((c, addr) # rest) st =
     (if c = CHR ''S'' \<or> c = CHR ''L'' \<or> c = CHR ''M'' then
        (if c = CHR ''L'' then
           (case accessData s b E addr st of
              Inl e \<Rightarrow> Inl e
            | Inr st1 \<Rightarrow> replayTrace s b E rest st1)
         else if c = CHR ''S'' then
           (case accessData s b E addr st of
              Inl e \<Rightarrow> Inl e
            | Inr st1 \<Rightarrow> replayTrace s b E rest st1)
         else if c = CHR ''M'' then
           (case accessData s b E addr st of
              Inl e \<Rightarrow> Inl e
            | Inr st1 \<Rightarrow>
                (case accessData s b E addr st1 of
                   Inl e \<Rightarrow> Inl e
                 | Inr st2 \<Rightarrow> replayTrace s b E rest st2))
         else replayTrace s b E rest st)
      else replayTrace s b E rest st)"

section \<open>Runs and reachable states\<close>

text \<open>
  The states the simulator can be in: the state after \<^verbatim>\<open>initCache\<close>, and every state a
  call of \<^verbatim>\<open>accessData\<close> returns from such a state.  \<open>accesses\<close> counts the calls
  of \<^verbatim>\<open>accessData\<close> that \<^verbatim>\<open>replayTrace\<close> makes on a trace.
\<close>

inductive reachable :: "nat \<Rightarrow> nat \<Rightarrow> nat \<Rightarrow> sim_state \<Rightarrow> bool" for s b E where
  init: "initCache s E = Inr c \<Longrightarrow> reachable s b E (initial_state c)"
| step: "reachable s b E st \<Longrightarrow> accessData s b E addr st = Inr st' \<Longrightarrow> reachable s b E st'"

fun accesses :: "(char \<times> mem_addr_t) list \<Rightarrow> int" where
  "accesses [] = 0"
| "accesses ((c, addr) # rest) =
     (if c = CHR ''L'' \<or> c = CHR ''S'' then 1 else if c = CHR ''M'' then 2 else 0) + accesses rest"

text \<open>
  The state of the geometry \<open>s = b = E = 1\<close> after \<open>k\<close> accesses to address 0: set 0 holds
  tag 0 with recency \<open>k\<close>.
\<close>

definition one_line_state :: "int \<Rightarrow> sim_state" where
  "one_line_state k =
     \<lparr>cache = [[\<lparr>valid = CHR ''1'', tag = 0, counter = k\<rparr>], [empty_line]],
      miss_count = 1, hit_count = k - 1, eviction_count = 0\<rparr>"

text \<open>
  The invariant of the cache store: \<open>2^s\<close> sets of \<open>E\<close> lines, every valid flag one of
  the two characters the code writes, no negative recency, and no tag held by two valid
  lines of a set.
\<close>

definition tags_unique :: "nat \<Rightarrow> cache_set_t \<Rightarrow> bool" where
  "tags_unique E ls \<longleftrightarrow>
     (\<forall>i<E. \<forall>j<E. valid (ls ! i) = CHR ''1'' \<and> valid (ls ! j) = CHR ''1''
        \<and> tag (ls ! i) = tag (ls ! j) \<longrightarrow> i = j)"

definition set_inv :: "nat \<Rightarrow> cache_set_t \<Rightarrow> bool" where
  "set_inv E ls \<longleftrightarrow>
     length ls = E
     \<and> (\<forall>j<E. valid (ls ! j) = CHR ''0'' \<or> valid (ls ! j) = CHR ''1'')
     \<and> (\<forall>j<E. 0 \<le> counter (ls ! j))
     \<and> tags_unique E ls"

definition cache_inv :: "nat \<Rightarrow> nat \<Rightarrow> cache_t \<Rightarrow> bool" where
  "cache_inv s E c \<longleftrightarrow> length c = 2 ^ s \<and> (\<forall>n<length c. set_inv E (c ! n))"

text \<open>
  A second invariant, of the counters: none is negative, evictions do not exceed misses,
  and no recency exceeds the number of accesses made so far.
\<close>

definition bounded_inv :: "nat \<Rightarrow> nat \<Rightarrow> sim_state \<Rightarrow> bool" where
  "bounded_inv s E st \<longleftrightarrow>
     cache_inv s E (cache st)
     \<and> 0 \<le> hit_count st \<and> 0 \<le> miss_count st
     \<and> 0 \<le> eviction_count st \<and> eviction_count st \<le> miss_count st
     \<and> (\<forall>n<length (cache st). \<forall>j<E.
           counter (cache st ! n ! j) \<le> hit_count st + miss_count st)"

section \<open>Address decomposition\<close>

subsection \<open>Rounding to double precision\<close>


lemma bit_len_le: "bit_len n \<le> k \<longleftrightarrow> n < 2 ^ k"
proof (induction n arbitrary: k rule: bit_len.induct)
  case (1 n)
  show ?case
  proof (cases "n = 0")
    case True
    then show ?thesis by (simp add: bit_len.simps)
  next
    case False
    show ?thesis
    proof (cases k)
      case 0
      with False show ?thesis by (simp add: bit_len.simps [of n])
    next
      case (Suc k')
      have "bit_len (n div 2) \<le> k' \<longleftrightarrow> n div 2 < 2 ^ k'"
        using "1.IH" [OF False] .
      moreover have "n div 2 < m \<longleftrightarrow> n < 2 * m" for m :: nat
        by arith
      ultimately show ?thesis using False Suc
        by (simp add: bit_len.simps [of n])
    qed
  qed
qed

lemma double_of_nat_small: "n < 2 ^ 53 \<Longrightarrow> double_of_nat n = n"
  by (simp add: double_of_nat_def bit_len_le)


lemma bit_len_eq: "2 ^ k \<le> n \<Longrightarrow> n < 2 ^ Suc k \<Longrightarrow> bit_len n = Suc k"
proof -
  assume a: "2 ^ k \<le> n" and b: "n < 2 ^ Suc k"
  have "bit_len n \<le> Suc k" using b by (simp only: bit_len_le)
  moreover have "\<not> bit_len n \<le> k" using a by (simp add: bit_len_le)
  ultimately show ?thesis by arith
qed

lemma double_round:
  assumes lo: "2 ^ (52 + e) \<le> n" and hi: "n < 2 ^ (53 + e)" and e: "1 \<le> e"
    and n: "n = q * 2 ^ e + r" and r: "r < 2 ^ e"
  shows "double_of_nat n =
    (if r < 2 ^ (e - 1) \<or> (r = 2 ^ (e - 1) \<and> even q) then q * 2 ^ e else (q + 1) * 2 ^ e)"
proof -
  have bl: "bit_len n = 53 + e"
    using bit_len_eq [of "52 + e" n] lo hi by simp
  have q: "n div 2 ^ e = q" using n r by simp
  have r': "n mod 2 ^ e = r" using n r by simp
  have "\<not> bit_len n \<le> 53" using bl e by simp
  then show ?thesis
    by (simp add: double_of_nat_def bl q r' Let_def)
qed

lemma double_pow_minus1:
  assumes "54 \<le> k"
  shows "double_of_nat (2 ^ k - 1) = 2 ^ k"
proof -
  define e where "e = k - 53"
  have k: "k = 53 + e" and e: "1 \<le> e" using assms by (simp_all add: e_def)
  have p: "(2::nat) ^ k = 2 ^ 53 * 2 ^ e" by (simp add: k power_add)
  have pe: "(2::nat) ^ e = 2 * 2 ^ (e - 1)" using e by (cases e) simp_all
  have ge1: "(1::nat) \<le> 2 ^ (e - 1)" by simp
  have n: "(2::nat) ^ k - 1 = (2 ^ 53 - 1) * 2 ^ e + (2 ^ e - 1)"
    by (simp add: p diff_mult_distrib)
  have lo: "(2::nat) ^ (52 + e) \<le> 2 ^ k - 1"
  proof -
    have "(2::nat) ^ k = 2 * 2 ^ (52 + e)" by (simp add: k power_add)
    moreover have "(1::nat) \<le> 2 ^ (52 + e)" by simp
    ultimately show ?thesis by arith
  qed
  have hi: "(2::nat) ^ k - 1 < 2 ^ (53 + e)" by (simp add: k)
  have r: "(2::nat) ^ e - 1 < 2 ^ e" by simp
  have nr: "\<not> (2::nat) ^ e - 1 < 2 ^ (e - 1)" using pe ge1 by arith
  have odd: "odd ((2::nat) ^ 53 - 1)" by simp
  have "double_of_nat (2 ^ k - 1) = (2 ^ 53 - 1 + 1) * 2 ^ e"
    using double_round [OF lo hi e n r] nr odd by simp
  then show ?thesis by (simp add: p)
qed

lemma double_exact_mult:
  assumes "q < 2 ^ 53"
  shows "double_of_nat (q * 2 ^ e) = q * 2 ^ e"
proof (cases "bit_len (q * 2 ^ e) \<le> 53")
  case True
  then show ?thesis by (simp add: double_of_nat_def)
next
  case False
  define n where "n = q * 2 ^ e"
  define e' where "e' = bit_len n - 53"
  have "n < 2 ^ 53 * 2 ^ e" using assms by (simp add: n_def)
  then have "n < 2 ^ (53 + e)" by (simp add: power_add)
  then have "bit_len n \<le> 53 + e" by (simp only: bit_len_le)
  then have le: "e' \<le> e" by (simp add: e'_def)
  have e1: "1 \<le> e'" using False by (simp add: e'_def n_def)
  have "(2::nat) ^ e' dvd 2 ^ e" using le by (simp add: le_imp_power_dvd)
  then have dv: "(2::nat) ^ e' dvd n" by (simp add: n_def)
  then have m: "n mod 2 ^ e' = 0" by simp
  have d: "n div 2 ^ e' * 2 ^ e' = n" using dv by simp
  have "double_of_nat n = n"
    using False m d by (simp add: double_of_nat_def Let_def n_def [symmetric] e'_def [symmetric])
  then show ?thesis by (simp add: n_def)
qed

lemma double_plus1_down:
  assumes m: "2 ^ 52 \<le> m" "m < 2 ^ 53" and e: "1 \<le> e" and c: "2 \<le> e \<or> even m"
  shows "double_of_nat (m * 2 ^ e + 1) = m * 2 ^ e"
proof -
  have pe: "(2::nat) ^ e = 2 * 2 ^ (e - 1)" using e by (cases e) simp_all
  have lo: "(2::nat) ^ (52 + e) \<le> m * 2 ^ e + 1"
  proof -
    have "(2::nat) ^ (52 + e) = 2 ^ 52 * 2 ^ e" by (simp only: power_add)
    also have "\<dots> \<le> m * 2 ^ e" using m(1) by (rule mult_right_mono) simp
    finally show ?thesis by arith
  qed
  have hi: "m * 2 ^ e + 1 < 2 ^ (53 + e)"
  proof -
    have "m + 1 \<le> 2 ^ 53" using m(2) by simp
    then have "(m + 1) * 2 ^ e \<le> 2 ^ 53 * 2 ^ e" by (rule mult_right_mono) simp
    then have "m * 2 ^ e + 2 ^ e \<le> 2 ^ (53 + e)" by (simp only: power_add add_mult_distrib mult_1)
    moreover have "(1::nat) < 2 ^ e" using e by (intro one_less_power) simp_all
    ultimately show ?thesis by arith
  qed
  have r: "(1::nat) < 2 ^ e" using e by (intro one_less_power) simp_all
  have cond: "(1::nat) < 2 ^ (e - 1) \<or> ((1::nat) = 2 ^ (e - 1) \<and> even m)"
  proof (cases "2 \<le> e")
    case True
    then have "(1::nat) < 2 ^ (e - 1)" by (intro one_less_power) simp_all
    then show ?thesis by simp
  next
    case False
    then have "e = 1" using e by simp
    then show ?thesis using c False by simp
  qed
  show ?thesis
    using double_round [OF lo hi e refl r] cond by simp
qed

subsection \<open>The mask and the two fields\<close>

lemma unat_mask_word: "n < 64 \<Longrightarrow> unat (2 ^ n - 1 :: 64 word) = 2 ^ n - 1"
proof -
  assume n: "n < 64"
  have eq: "(2 ^ n - 1 :: 64 word) = of_nat (2 ^ n - 1)" by simp
  have "(2 :: nat) ^ n < 2 ^ 64"
    using n by (intro power_strict_increasing) simp_all
  then have lt: "(2 ^ n - 1 :: nat) < 2 ^ 64" by arith
  show ?thesis unfolding eq using lt by (simp only: unat_of_nat) simp
qed

lemma decompose_word:
  fixes addr :: "64 word"
  assumes "s + b < 64"
  shows "drop_bit b (addr AND (2 ^ (s + b) - 2 ^ b)) = drop_bit b addr AND (2 ^ s - 1)"
proof -
  have m: "(2 ^ (s + b) - 2 ^ b :: 64 word) = push_bit b (mask s)"
    by (simp add: push_bit_eq_mult mask_eq_exp_minus_1 algebra_simps power_add)
  have r: "(2 ^ s - 1 :: 64 word) = mask s"
    by (simp add: mask_eq_exp_minus_1)
  show ?thesis unfolding m r
    using assms by (intro bit_word_eqI) (auto simp add: bit_simps)
qed


lemma mask_value:
  assumes sb: "s + b < 64" and s: "s \<le> 53" and ne: "(s, b) \<noteq> (53, 1)"
  shows "double_of_nat (2 ^ b - 1) \<le> double_of_nat (2 ^ (s + b) - 1)
    \<and> double_of_nat (double_of_nat (2 ^ (s + b) - 1) - double_of_nat (2 ^ b - 1))
        = 2 ^ (s + b) - 2 ^ b"
proof -
  have mono: "(2::nat) ^ b \<le> 2 ^ (s + b)" by (intro power_increasing) simp_all
  consider (A) "s + b \<le> 53" | (B) "54 \<le> s + b" "54 \<le> b" | (C) "54 \<le> s + b" "b \<le> 53"
    by arith
  then show ?thesis
  proof cases
    case A
    have "(2::nat) ^ (s + b) \<le> 2 ^ 53" using A by (intro power_increasing) simp_all
    then have x: "(2::nat) ^ (s + b) - 1 < 2 ^ 53" by simp
    have "(2::nat) ^ b \<le> 2 ^ 53" using A by (intro power_increasing) simp_all
    then have y: "(2::nat) ^ b - 1 < 2 ^ 53" by simp
    have d: "(2::nat) ^ (s + b) - 1 - (2 ^ b - 1) = 2 ^ (s + b) - 2 ^ b" by simp
    have "(1::nat) \<le> 2 ^ b" by simp
    then have dl: "(2::nat) ^ (s + b) - 2 ^ b < 2 ^ 53" using x by arith
    have le: "(2::nat) ^ b - 1 \<le> 2 ^ (s + b) - 1" using mono by arith
    have c1: "double_of_nat (2 ^ b - 1) \<le> double_of_nat (2 ^ (s + b) - 1)"
      by (simp only: double_of_nat_small [OF x] double_of_nat_small [OF y] le)
    have c2: "double_of_nat (double_of_nat (2 ^ (s + b) - 1) - double_of_nat (2 ^ b - 1))
        = 2 ^ (s + b) - 2 ^ b"
      by (simp only: double_of_nat_small [OF x] double_of_nat_small [OF y] d
          double_of_nat_small [OF dl])
    show ?thesis using c1 c2 by (rule conjI)
  next
    case B
    have x: "double_of_nat (2 ^ (s + b) - 1) = 2 ^ (s + b)" by (rule double_pow_minus1 [OF B(1)])
    have y: "double_of_nat (2 ^ b - 1) = 2 ^ b" by (rule double_pow_minus1 [OF B(2)])
    have "s < 53" using sb B by arith
    then have "(2::nat) ^ s \<le> 2 ^ 53" by (intro power_increasing) simp_all
    then have q: "(2::nat) ^ s - 1 < 2 ^ 53" by simp
    have d: "(2::nat) ^ (s + b) - 2 ^ b = (2 ^ s - 1) * 2 ^ b"
      by (simp add: power_add diff_mult_distrib)
    have c1: "double_of_nat (2 ^ b - 1) \<le> double_of_nat (2 ^ (s + b) - 1)"
      by (simp only: x y mono)
    have c2: "double_of_nat (double_of_nat (2 ^ (s + b) - 1) - double_of_nat (2 ^ b - 1))
        = 2 ^ (s + b) - 2 ^ b"
      by (simp only: x y d double_exact_mult [OF q])
    show ?thesis using c1 c2 by (rule conjI)
  next
    case C
    define e where "e = s + b - 53"
    define t where "t = 53 - s"
    have e: "1 \<le> e" and sbe: "s + b = 53 + e" and bt: "b = e + t" and t: "t \<le> 52"
      using C s by (simp_all add: e_def t_def)
    have x: "double_of_nat (2 ^ (s + b) - 1) = 2 ^ (s + b)" by (rule double_pow_minus1 [OF C(1)])
    have "(2::nat) ^ b \<le> 2 ^ 53" using C by (intro power_increasing) simp_all
    then have yl: "(2::nat) ^ b - 1 < 2 ^ 53" by simp
    have y: "double_of_nat (2 ^ b - 1) = 2 ^ b - 1" by (rule double_of_nat_small [OF yl])
    define m :: nat where "m = 2 ^ 53 - 2 ^ t"
    have pt: "(2::nat) ^ t \<le> 2 ^ 52" using t by (intro power_increasing) simp_all
    have m1: "2 ^ 52 \<le> m" using pt by (simp add: m_def)
    have m2: "m < 2 ^ 53" unfolding m_def by (rule diff_less) simp_all
    have evn: "2 \<le> e \<or> even m"
    proof (cases "t = 0")
      case True
      then have "s = 53" using s by (simp add: t_def)
      then have "b \<noteq> 1" using ne by simp
      then have "2 \<le> e" using \<open>s = 53\<close> C by (simp add: e_def)
      then show ?thesis by simp
    next
      case False
      then have "even ((2::nat) ^ t)" by simp
      then have "even m" unfolding m_def by simp
      then show ?thesis by simp
    qed
    have p1: "(2::nat) ^ (s + b) = 2 ^ 53 * 2 ^ e" unfolding sbe by (rule power_add)
    have "(2::nat) ^ (e + t) = 2 ^ t * 2 ^ e" by (simp only: power_add mult.commute)
    then have p2: "(2::nat) ^ b = 2 ^ t * 2 ^ e" using bt by simp
    have me: "m * 2 ^ e = 2 ^ (s + b) - 2 ^ b"
      unfolding p1 p2 m_def by (rule diff_mult_distrib)
    have d: "(2::nat) ^ (s + b) - (2 ^ b - 1) = m * 2 ^ e + 1"
    proof -
      have "(1::nat) \<le> 2 ^ b" by simp
      then have "(2::nat) ^ (s + b) - (2 ^ b - 1) = 2 ^ (s + b) - 2 ^ b + 1"
        using mono by arith
      then show ?thesis by (simp only: me)
    qed
    have le: "(2::nat) ^ b - 1 \<le> 2 ^ (s + b)" using mono by arith
    have c1: "double_of_nat (2 ^ b - 1) \<le> double_of_nat (2 ^ (s + b) - 1)"
      by (simp only: x y le)
    have c2: "double_of_nat (double_of_nat (2 ^ (s + b) - 1) - double_of_nat (2 ^ b - 1))
        = 2 ^ (s + b) - 2 ^ b"
      by (simp only: x y d me [symmetric] double_plus1_down [OF m1 m2 e evn])
    show ?thesis using c1 c2 by (rule conjI)
  qed
qed

lemma set_mask_exact:
  assumes sb: "s + b < 64" and s: "s \<le> 53" and ne: "(s, b) \<noteq> (53, 1)"
  shows "set_mask s b = Inr (2 ^ (s + b) - 2 ^ b)"
proof -
  note mv = mask_value [OF assms]
  have u: "unat (2 ^ (s + b) - 1 :: 64 word) = 2 ^ (s + b) - 1"
    by (rule unat_mask_word [OF sb])
  have nd: "nat (int (double_of_nat (2 ^ (s + b) - 1)) - int (double_of_nat (2 ^ b - 1)))
      = double_of_nat (2 ^ (s + b) - 1) - double_of_nat (2 ^ b - 1)"
    by (simp add: nat_diff_distrib')
  have nn: "\<not> int (double_of_nat (2 ^ (s + b) - 1)) - int (double_of_nat (2 ^ b - 1)) < 0"
    using mv by simp
  have "(2::nat) ^ (s + b) < 2 ^ 64" using sb by (intro power_strict_increasing) simp_all
  then have lt: "\<not> (2::nat) ^ 64 \<le> 2 ^ (s + b) - 2 ^ b" by arith
  have w: "(word_of_nat (2 ^ (s + b) - 2 ^ b) :: 64 word) = 2 ^ (s + b) - 2 ^ b"
    by (simp add: of_nat_diff)
  show ?thesis
    unfolding set_mask_def Let_def u
    using sb nn lt by (simp only: nd conjunct2 [OF mv] w) simp
qed

lemma decompose_exact:
  assumes sb: "s + b < 64" and s: "s \<le> 53" and ne: "(s, b) \<noteq> (53, 1)"
  shows "decompose s b addr = Inr (drop_bit b addr AND (2 ^ s - 1), drop_bit (s + b) addr)"
  unfolding decompose_def set_mask_exact [OF assms]
  by (simp only: sum.case Let_def decompose_word [OF sb])

section \<open>The access engine\<close>

subsection \<open>The scan for the minimum and the maximum\<close>

lemma scan_min_max_Suc:
  "scan_min_max ls (Suc n) = scan_step ls n (scan_min_max ls n)"
  by (simp add: scan_min_max_def)

lemma scan_min_max_0: "scan_min_max ls 0 = (5000, 0, -1)"
  by (simp add: scan_min_max_def)

lemma scan_max:
  "scan_min_max ls n = (mn, mx, mi) \<Longrightarrow>
     0 \<le> mx \<and> (\<forall>j<n. counter (ls ! j) \<le> mx) \<and> (mx = 0 \<or> (\<exists>j<n. counter (ls ! j) = mx))"
proof (induction n arbitrary: mn mx mi)
  case 0
  then show ?case by (simp add: scan_min_max_0)
next
  case (Suc n)
  obtain mn0 mx0 mi0 where p: "scan_min_max ls n = (mn0, mx0, mi0)"
    by (cases "scan_min_max ls n") auto
  note ih = Suc.IH [OF p]
  have mx: "mx = (if counter (ls ! n) > mx0 then counter (ls ! n) else mx0)"
    using Suc.prems by (simp add: scan_min_max_Suc p scan_step_def Let_def split: if_splits)
  show ?case
  proof (cases "counter (ls ! n) > mx0")
    case True
    with mx ih show ?thesis by (auto simp add: less_Suc_eq)
  next
    case False
    with mx ih show ?thesis by (auto simp add: less_Suc_eq intro: exI)
  qed
qed

lemma scan_min:
  "scan_min_max ls n = (mn, mx, mi) \<Longrightarrow>
     (mi = -1 \<and> mn = 5000 \<and> (\<forall>j<n. 5000 \<le> counter (ls ! j)))
   \<or> (0 \<le> mi \<and> nat mi < n \<and> mn = counter (ls ! nat mi) \<and> mn < 5000
        \<and> (\<forall>j<n. mn \<le> counter (ls ! j)) \<and> (\<forall>j<nat mi. mn < counter (ls ! j)))"
proof (induction n arbitrary: mn mx mi)
  case 0
  then show ?case by (simp add: scan_min_max_0)
next
  case (Suc n)
  obtain mn0 mx0 mi0 where p: "scan_min_max ls n = (mn0, mx0, mi0)"
    by (cases "scan_min_max ls n") auto
  note ih = Suc.IH [OF p]
  show ?case
  proof (cases "counter (ls ! n) < mn0")
    case True
    then have r: "mn = counter (ls ! n)" "mi = int n"
      using Suc.prems by (simp_all add: scan_min_max_Suc p scan_step_def Let_def)
    have "mn0 \<le> 5000" using ih by auto
    moreover have "\<forall>j<n. mn0 \<le> counter (ls ! j)" using ih by auto
    ultimately show ?thesis using True r by (auto simp add: less_Suc_eq)
  next
    case False
    then have r: "mn = mn0" "mi = mi0"
      using Suc.prems by (simp_all add: scan_min_max_Suc p scan_step_def Let_def)
    from ih show ?thesis
    proof
      assume "mi0 = -1 \<and> mn0 = 5000 \<and> (\<forall>j<n. 5000 \<le> counter (ls ! j))"
      then show ?thesis using False r by (auto simp add: less_Suc_eq)
    next
      assume "0 \<le> mi0 \<and> nat mi0 < n \<and> mn0 = counter (ls ! nat mi0) \<and> mn0 < 5000
        \<and> (\<forall>j<n. mn0 \<le> counter (ls ! j)) \<and> (\<forall>j<nat mi0. mn0 < counter (ls ! j))"
      then show ?thesis using False r by (auto simp add: less_Suc_eq)
    qed
  qed
qed

lemma find_hit_Some:
  "find_hit ls E t = Some k \<longleftrightarrow>
     k < E \<and> valid (ls ! k) = CHR ''1'' \<and> tag (ls ! k) = t
     \<and> (\<forall>j<k. \<not> (valid (ls ! j) = CHR ''1'' \<and> tag (ls ! j) = t))"
  unfolding find_hit_def find_Some_iff by auto

lemma find_hit_None:
  "find_hit ls E t = None \<longleftrightarrow> (\<forall>j<E. \<not> (valid (ls ! j) = CHR ''1'' \<and> tag (ls ! j) = t))"
  unfolding find_hit_def find_None_iff by auto

lemma find_empty_Some:
  "find_empty ls E = Some k \<longleftrightarrow>
     k < E \<and> valid (ls ! k) = CHR ''0'' \<and> (\<forall>j<k. valid (ls ! j) \<noteq> CHR ''0'')"
  unfolding find_empty_def find_Some_iff by auto

lemma find_empty_None:
  "find_empty ls E = None \<longleftrightarrow> (\<forall>j<E. valid (ls ! j) \<noteq> CHR ''0'')"
  unfolding find_empty_def find_None_iff by auto

lemma accessData_at:
  assumes "decompose s b addr = Inr (i, t)" and "unat i < length (cache st)"
    and "E \<le> length (cache st ! unat i)" and "scan_min_max (cache st ! unat i) E = (mn, mx, mi)"
  shows "accessData s b E addr st =
    (case find_hit (cache st ! unat i) E t of
       Some k \<Rightarrow>
         if hit_count st = INT_MAX \<or> mx = INT_MAX then Inl Signed_Overflow
         else Inr (set_line (st\<lparr>hit_count := hit_count st + 1\<rparr>) (unat i) k
                     ((cache st ! unat i ! k)\<lparr>counter := mx + 1\<rparr>))
     | None \<Rightarrow>
         if miss_count st = INT_MAX then Inl Signed_Overflow
         else
           (case find_empty (cache st ! unat i) E of
              Some k \<Rightarrow>
                if mx = INT_MAX then Inl Signed_Overflow
                else Inr (set_line (st\<lparr>miss_count := miss_count st + 1\<rparr>) (unat i) k
                            \<lparr>valid = CHR ''1'', tag = t, counter = mx + 1\<rparr>)
            | None \<Rightarrow>
                if eviction_count st = INT_MAX then Inl Signed_Overflow
                else if mi < 0 \<or> int E \<le> mi then Inl (Line_Out_Of_Bounds mi)
                else if mx = INT_MAX then Inl Signed_Overflow
                else Inr (set_line
                            (st\<lparr>miss_count := miss_count st + 1,
                                 eviction_count := eviction_count st + 1\<rparr>)
                            (unat i) (nat mi)
                            ((cache st ! unat i ! nat mi)\<lparr>tag := t, counter := mx + 1\<rparr>))))"
  using assms by (simp add: accessData_def Let_def split: option.splits)

subsection \<open>Counters\<close>

lemma set_line_counts [simp]:
  "miss_count (set_line st i j l) = miss_count st"
  "hit_count (set_line st i j l) = hit_count st"
  "eviction_count (set_line st i j l) = eviction_count st"
  "cache (set_line st i j l) = (cache st)[i := (cache st ! i)[j := l]]"
  by (simp_all add: set_line_def)

lemma accessData_cases [consumes 1, case_names hit cold evict]:
  assumes "accessData s b E addr st = Inr st'"
  obtains
    (hit) i t mn mx mi k where
      "decompose s b addr = Inr (i, t)" "unat i < length (cache st)"
      "E \<le> length (cache st ! unat i)" "scan_min_max (cache st ! unat i) E = (mn, mx, mi)"
      "find_hit (cache st ! unat i) E t = Some k"
      "hit_count st \<noteq> INT_MAX" "mx \<noteq> INT_MAX"
      "st' = set_line (st\<lparr>hit_count := hit_count st + 1\<rparr>) (unat i) k
               ((cache st ! unat i ! k)\<lparr>counter := mx + 1\<rparr>)"
  | (cold) i t mn mx mi k where
      "decompose s b addr = Inr (i, t)" "unat i < length (cache st)"
      "E \<le> length (cache st ! unat i)" "scan_min_max (cache st ! unat i) E = (mn, mx, mi)"
      "find_hit (cache st ! unat i) E t = None" "find_empty (cache st ! unat i) E = Some k"
      "miss_count st \<noteq> INT_MAX" "mx \<noteq> INT_MAX"
      "st' = set_line (st\<lparr>miss_count := miss_count st + 1\<rparr>) (unat i) k
               \<lparr>valid = CHR ''1'', tag = t, counter = mx + 1\<rparr>"
  | (evict) i t mn mx mi where
      "decompose s b addr = Inr (i, t)" "unat i < length (cache st)"
      "E \<le> length (cache st ! unat i)" "scan_min_max (cache st ! unat i) E = (mn, mx, mi)"
      "find_hit (cache st ! unat i) E t = None" "find_empty (cache st ! unat i) E = None"
      "miss_count st \<noteq> INT_MAX" "eviction_count st \<noteq> INT_MAX" "mx \<noteq> INT_MAX"
      "0 \<le> mi" "mi < int E"
      "st' = set_line (st\<lparr>miss_count := miss_count st + 1,
                           eviction_count := eviction_count st + 1\<rparr>) (unat i) (nat mi)
               ((cache st ! unat i ! nat mi)\<lparr>tag := t, counter := mx + 1\<rparr>)"
proof -
  obtain i t where d: "decompose s b addr = Inr (i, t)"
    using assms by (auto simp add: accessData_def split: sum.splits)
  have r: "unat i < length (cache st)" "E \<le> length (cache st ! unat i)"
    using assms d by (auto simp add: accessData_def split: if_splits)
  obtain mn mx mi where sc: "scan_min_max (cache st ! unat i) E = (mn, mx, mi)"
    by (cases "scan_min_max (cache st ! unat i) E") auto
  note eq = accessData_at [OF d r sc]
  show thesis
  proof (cases "find_hit (cache st ! unat i) E t")
    case (Some k)
    with assms eq show thesis
      by (intro hit [OF d r sc Some]) (auto split: if_splits)
  next
    case None
    show thesis
    proof (cases "find_empty (cache st ! unat i) E")
      case (Some k)
      with assms eq None show thesis
        by (intro cold [OF d r sc None Some]) (auto split: if_splits)
    next
      case N2: None
      with assms eq None show thesis
        by (intro evict [OF d r sc None N2]) (auto split: if_splits)
    qed
  qed
qed

lemma accessData_counts:
  assumes "accessData s b E addr st = Inr st'"
  shows "(hit_count st' = hit_count st + 1 \<and> miss_count st' = miss_count st
            \<and> eviction_count st' = eviction_count st)
       \<or> (hit_count st' = hit_count st \<and> miss_count st' = miss_count st + 1
            \<and> (eviction_count st' = eviction_count st \<or> eviction_count st' = eviction_count st + 1))"
  using assms by (cases rule: accessData_cases) simp_all

lemma replayTrace_counts:
  "replayTrace s b E evs st = Inr st' \<Longrightarrow>
     hit_count st' + miss_count st' = hit_count st + miss_count st + accesses evs"
proof (induction evs arbitrary: st)
  case Nil
  then show ?case by simp
next
  case (Cons ev evs)
  obtain c addr where ev: "ev = (c, addr)" by (cases ev)
  consider (one) "c = CHR ''L'' \<or> c = CHR ''S''" | (two) "c = CHR ''M''"
    | (skip) "c \<noteq> CHR ''L''" "c \<noteq> CHR ''S''" "c \<noteq> CHR ''M''" by blast
  then show ?case
  proof cases
    case one
    then obtain st1 where a: "accessData s b E addr st = Inr st1"
      and r: "replayTrace s b E evs st1 = Inr st'"
      using Cons.prems ev by (auto split: sum.splits if_splits)
    from accessData_counts [OF a] Cons.IH [OF r] one show ?thesis
      by (auto simp add: ev)
  next
    case two
    then obtain st1 st2 where a: "accessData s b E addr st = Inr st1"
      and a2: "accessData s b E addr st1 = Inr st2"
      and r: "replayTrace s b E evs st2 = Inr st'"
      using Cons.prems ev by (auto split: sum.splits)
    from accessData_counts [OF a] accessData_counts [OF a2] Cons.IH [OF r] two show ?thesis
      by (auto simp add: ev)
  next
    case skip
    then have r: "replayTrace s b E evs st = Inr st'"
      using Cons.prems ev by simp
    from Cons.IH [OF r] skip show ?thesis by (simp add: ev)
  qed
qed

lemma reachable_evict_le_miss:
  "reachable s b E st \<Longrightarrow> 0 \<le> eviction_count st \<and> eviction_count st \<le> miss_count st"
proof (induction rule: reachable.induct)
  case (init c)
  then show ?case by (simp add: initial_state_def)
next
  case (step st addr st')
  from accessData_counts [OF step.hyps(2)] step.IH show ?case by auto
qed

subsection \<open>A run that reaches the sentinel\<close>

lemmas access_eval =
  accessData_def decompose_exact Let_def scan_min_max_def scan_step_def find_hit_def
  find_empty_def set_line_def INT_MAX_def upt_rec

lemma init_1_1: "initCache 1 1 = Inr [[empty_line], [empty_line]]"
  by (simp add: initCache_def numeral_2_eq_2)

lemma first_access: "accessData 1 1 1 0 (initial_state [[empty_line], [empty_line]]) = Inr (one_line_state 1)"
  by (simp add: access_eval initial_state_def one_line_state_def empty_line_def)

lemma hit_access:
  assumes "0 \<le> k" "k < 2147483647"
  shows "accessData 1 1 1 0 (one_line_state k) = Inr (one_line_state (k + 1))"
  using assms by (simp add: access_eval one_line_state_def)

lemma hit_run:
  "0 \<le> k \<Longrightarrow> k + int n \<le> 2147483647 \<Longrightarrow>
     replayTrace 1 1 1 (replicate n (CHR ''L'', 0)) (one_line_state k) = Inr (one_line_state (k + int n))"
proof (induction n arbitrary: k)
  case 0
  then show ?case by simp
next
  case (Suc n)
  have h: "accessData 1 1 1 0 (one_line_state k) = Inr (one_line_state (k + 1))"
    using Suc.prems by (intro hit_access) simp_all
  have "replayTrace 1 1 1 (replicate n (CHR ''L'', 0)) (one_line_state (k + 1))
      = Inr (one_line_state (k + 1 + int n))"
    using Suc.prems by (intro Suc.IH) simp_all
  moreover have "k + 1 + int n = k + int (Suc n)" by simp
  ultimately show ?case by (simp add: h del: One_nat_def of_nat_Suc)
qed

lemma replayTrace_append:
  "replayTrace s b E (xs @ ys) st =
     (case replayTrace s b E xs st of Inl e \<Rightarrow> Inl e | Inr st1 \<Rightarrow> replayTrace s b E ys st1)"
  by (induction xs arbitrary: st) (auto split: sum.splits)

lemma run_5000:
  "replayTrace 1 1 1 (replicate 5000 (CHR ''L'', 0)) (initial_state [[empty_line], [empty_line]])
     = Inr (one_line_state 5000)"
proof -
  have r: "replicate 5000 (CHR ''L'', 0 :: mem_addr_t) = (CHR ''L'', 0) # replicate 4999 (CHR ''L'', 0)"
    by (simp add: replicate_Suc [symmetric] del: replicate_Suc)
  have "replayTrace 1 1 1 (replicate 4999 (CHR ''L'', 0)) (one_line_state 1) = Inr (one_line_state (1 + int 4999))"
    by (rule hit_run) simp_all
  then show ?thesis by (simp only: r replayTrace.simps first_access) simp
qed

lemma evict_fails: "accessData 1 1 1 4 (one_line_state 5000) = Inl (Line_Out_Of_Bounds (-1))"
  by (simp add: access_eval one_line_state_def)

lemma scan_fails: "scan_min_max (cache (one_line_state 5000) ! 0) 1 = (5000, 5000, -1)"
  by (simp add: access_eval one_line_state_def)

subsection \<open>Reachability of concrete states\<close>

lemma reachable_replay:
  "reachable s b E st \<Longrightarrow> replayTrace s b E evs st = Inr st' \<Longrightarrow> reachable s b E st'"
proof (induction evs arbitrary: st)
  case Nil
  then show ?case by simp
next
  case (Cons ev evs)
  obtain c addr where ev: "ev = (c, addr)" by (cases ev)
  consider (one) "c = CHR ''L'' \<or> c = CHR ''S''" | (two) "c = CHR ''M''"
    | (skip) "c \<noteq> CHR ''L''" "c \<noteq> CHR ''S''" "c \<noteq> CHR ''M''" by blast
  then show ?case
  proof cases
    case one
    then obtain st1 where a: "accessData s b E addr st = Inr st1"
      and r: "replayTrace s b E evs st1 = Inr st'"
      using Cons.prems ev by (auto split: sum.splits if_splits)
    from Cons.IH [OF reachable.step [OF Cons.prems(1) a] r] show ?thesis .
  next
    case two
    then obtain st1 st2 where a: "accessData s b E addr st = Inr st1"
      and a2: "accessData s b E addr st1 = Inr st2"
      and r: "replayTrace s b E evs st2 = Inr st'"
      using Cons.prems ev by (auto split: sum.splits)
    from Cons.IH [OF reachable.step [OF reachable.step [OF Cons.prems(1) a] a2] r]
    show ?thesis .
  next
    case skip
    then have r: "replayTrace s b E evs st = Inr st'"
      using Cons.prems ev by simp
    from Cons.IH [OF Cons.prems(1) r] show ?thesis .
  qed
qed

lemma reachable_5000: "reachable 1 1 1 (one_line_state 5000)"
  by (rule reachable_replay [OF reachable.init [OF init_1_1] run_5000])

lemma decompose_4: "decompose 1 1 4 = Inr (0, 1)"
  by (simp add: decompose_exact)

lemma one_line_no_hit: "find_hit (cache (one_line_state k) ! 0) 1 1 = None"
  by (simp add: find_hit_None one_line_state_def)

lemma one_line_no_empty: "find_empty (cache (one_line_state k) ! 0) 1 = None"
  by (simp add: find_empty_None one_line_state_def)

lemma evict_access:
  "accessData 1 1 1 4 (one_line_state 1) =
     Inr \<lparr>cache = [[\<lparr>valid = CHR ''1'', tag = 1, counter = 2\<rparr>], [empty_line]],
          miss_count = 2, hit_count = 0, eviction_count = 1\<rparr>"
  by (simp add: access_eval one_line_state_def)

lemma example_trace:
  "replayTrace 1 1 1 [(CHR ''L'', 0), (CHR ''M'', 0), (CHR ''I'', 8), (CHR ''S'', 4)]
     (initial_state [[empty_line], [empty_line]])
   = Inr \<lparr>cache = [[\<lparr>valid = CHR ''1'', tag = 1, counter = 4\<rparr>], [empty_line]],
          miss_count = 2, hit_count = 2, eviction_count = 1\<rparr>"
  by (simp add: access_eval initial_state_def empty_line_def)

lemma reachable_one: "reachable 1 1 1 (one_line_state 1)"
  by (rule reachable.step [OF reachable.init [OF init_1_1] first_access])

subsection \<open>The range of the set number, and a rounded mask\<close>

lemma set_index_bound: "unat (w AND (2 ^ s - 1) :: mem_addr_t) < 2 ^ s"
proof -
  have "w AND (2 ^ s - 1) = take_bit s w"
    by (simp add: take_bit_eq_mask mask_eq_exp_minus_1)
  then show ?thesis by (simp add: unsigned_take_bit_eq)
qed

lemma set_mask_53_1: "set_mask 53 1 = Inr (2 ^ 54)"
proof -
  have a: "unat (18014398509481983 :: mem_addr_t) = 18014398509481983"
    by simp
  have b: "double_of_nat 18014398509481983 = 18014398509481984"
    using double_pow_minus1 [of 54] by simp
  have c: "double_of_nat (Suc 0) = Suc 0"
    using double_of_nat_small [of 1] by simp
  show ?thesis
    by (simp add: set_mask_def a b c)
qed

lemma set_mask_undefined: "64 \<le> s + b \<Longrightarrow> set_mask s b = Inl Conversion_Out_Of_Range"
  by (simp add: set_mask_def)

subsection \<open>The invariant of the cache store\<close>

lemma set_inv_empty: "set_inv E (replicate E empty_line)"
  by (simp add: set_inv_def tags_unique_def empty_line_def)

lemma cache_inv_init: "initCache s E = Inr c \<Longrightarrow> cache_inv s E c"
  by (auto simp add: initCache_def cache_inv_def set_inv_empty split: if_splits)

lemma set_inv_hit:
  assumes inv: "set_inv E ls" and k: "k < E" and mx: "0 \<le> mx"
  shows "set_inv E (ls[k := (ls ! k)\<lparr>counter := mx + 1\<rparr>])"
proof -
  let ?ls = "ls[k := (ls ! k)\<lparr>counter := mx + 1\<rparr>]"
  have len: "length ls = E" using inv by (simp add: set_inv_def)
  have v: "valid (?ls ! j) = valid (ls ! j)" if "j < E" for j
    using that len by (cases "j = k") simp_all
  have tg: "tag (?ls ! j) = tag (ls ! j)" if "j < E" for j
    using that len by (cases "j = k") simp_all
  have c: "0 \<le> counter (?ls ! j)" if "j < E" for j
    using that len inv mx by (cases "j = k") (simp_all add: set_inv_def)
  have "tags_unique E ?ls"
    using inv unfolding set_inv_def tags_unique_def by (simp add: v tg)
  moreover have "\<forall>j<E. valid (?ls ! j) = CHR ''0'' \<or> valid (?ls ! j) = CHR ''1''"
    using inv unfolding set_inv_def by (simp add: v)
  ultimately show ?thesis
    using len c unfolding set_inv_def by simp
qed

lemma set_inv_install:
  assumes inv: "set_inv E ls" and k: "k < E" and mx: "0 \<le> mx"
    and nohit: "find_hit ls E t = None"
    and l: "valid l = CHR ''1''" "tag l = t" "counter l = mx + 1"
  shows "set_inv E (ls[k := l])"
proof -
  have nh: "\<forall>j<E. \<not> (valid (ls ! j) = CHR ''1'' \<and> tag (ls ! j) = t)"
    using nohit by (simp add: find_hit_None)
  have len: "length ls = E" using inv by (simp add: set_inv_def)
  have "tags_unique E (ls[k := l])"
    unfolding tags_unique_def
  proof (intro allI impI)
    fix i j
    assume i: "i < E" and j: "j < E"
      and h: "valid (ls[k := l] ! i) = CHR ''1'' \<and> valid (ls[k := l] ! j) = CHR ''1''
        \<and> tag (ls[k := l] ! i) = tag (ls[k := l] ! j)"
    show "i = j"
    proof (cases "i = k")
      case True
      show ?thesis
      proof (cases "j = k")
        case True
        with \<open>i = k\<close> show ?thesis by simp
      next
        case False
        have "valid (ls ! j) = CHR ''1'' \<and> tag (ls ! j) = t"
          using True False h l len k by simp
        with nh j show ?thesis by blast
      qed
    next
      case False
      show ?thesis
      proof (cases "j = k")
        case True
        have "valid (ls ! i) = CHR ''1'' \<and> tag (ls ! i) = t"
          using True False h l len k by simp
        with nh i show ?thesis by blast
      next
        case jk: False
        have "valid (ls ! i) = CHR ''1'' \<and> valid (ls ! j) = CHR ''1'' \<and> tag (ls ! i) = tag (ls ! j)"
          using False jk h by simp
        moreover have "tags_unique E ls" using inv by (simp add: set_inv_def)
        ultimately show ?thesis using i j unfolding tags_unique_def by blast
      qed
    qed
  qed
  moreover have "valid (ls[k := l] ! j) = CHR ''0'' \<or> valid (ls[k := l] ! j) = CHR ''1''"
    if "j < E" for j
    using that inv l len by (cases "j = k") (simp_all add: set_inv_def)
  moreover have "0 \<le> counter (ls[k := l] ! j)" if "j < E" for j
    using that inv l len mx by (cases "j = k") (simp_all add: set_inv_def)
  ultimately show ?thesis
    using len unfolding set_inv_def by simp
qed

lemma cache_inv_update:
  assumes inv: "cache_inv s E c" and ls: "set_inv E ls'"
  shows "cache_inv s E (c[i := ls'])"
proof -
  have "set_inv E (c[i := ls'] ! n)" if "n < length c" for n
    using that inv ls by (cases "n = i") (simp_all add: cache_inv_def)
  then show ?thesis using inv by (simp add: cache_inv_def)
qed

lemma accessData_inv:
  assumes a: "accessData s b E addr st = Inr st'" and inv: "cache_inv s E (cache st)"
  shows "cache_inv s E (cache st')"
  using a
proof (cases rule: accessData_cases)
  case (hit i t mn mx mi k)
  have si: "set_inv E (cache st ! unat i)" using inv hit(2) by (simp add: cache_inv_def)
  have k: "k < E" using hit(5) by (simp add: find_hit_Some)
  have mx: "0 \<le> mx" using scan_max [OF hit(4)] by simp
  show ?thesis
    using cache_inv_update [OF inv set_inv_hit [OF si k mx]] by (simp add: hit(8))
next
  case (cold i t mn mx mi k)
  have si: "set_inv E (cache st ! unat i)" using inv cold(2) by (simp add: cache_inv_def)
  have k: "k < E" using cold(6) by (simp add: find_empty_Some)
  have mx: "0 \<le> mx" using scan_max [OF cold(4)] by simp
  show ?thesis
    using cache_inv_update [OF inv set_inv_install [OF si k mx cold(5)]] by (simp add: cold(9))
next
  case (evict i t mn mx mi)
  have si: "set_inv E (cache st ! unat i)" using inv evict(2) by (simp add: cache_inv_def)
  have k: "nat mi < E" using evict(10,11) by simp
  have mx: "0 \<le> mx" using scan_max [OF evict(4)] by simp
  have v: "valid (cache st ! unat i ! nat mi) = CHR ''1''"
    using si k evict(6) by (auto simp add: set_inv_def find_empty_None)
  show ?thesis
    using cache_inv_update [OF inv set_inv_install [OF si k mx evict(5), of
          "(cache st ! unat i ! nat mi)\<lparr>tag := t, counter := mx + 1\<rparr>"]] v
    by (simp add: evict(12))
qed

lemma reachable_inv: "reachable s b E st \<Longrightarrow> cache_inv s E (cache st)"
proof (induction rule: reachable.induct)
  case (init c)
  then show ?case by (simp add: initial_state_def cache_inv_init)
next
  case (step st addr st')
  then show ?case by (simp add: accessData_inv)
qed

lemma initCache_lines:
  "initCache s E = Inr c \<Longrightarrow> n < length c \<Longrightarrow> c ! n = replicate E empty_line"
  by (auto simp add: initCache_def split: if_splits)

lemma reachable_tags_unique:
  "reachable s b E st \<Longrightarrow> n < length (cache st) \<Longrightarrow> tags_unique E (cache st ! n)"
  using reachable_inv [of s b E st] by (simp add: cache_inv_def set_inv_def)

lemma first_access_misses:
  assumes c: "initCache s E = Inr c" and a: "accessData s b E addr (initial_state c) = Inr st'"
  shows "hit_count st' = 0 \<and> miss_count st' = 1"
  using a
proof (cases rule: accessData_cases)
  case (hit i t mn mx mi k)
  have "cache (initial_state c) ! unat i = replicate E empty_line"
    using initCache_lines [OF c] hit(2) by (simp add: initial_state_def)
  moreover have "k < E" using hit(5) by (simp add: find_hit_Some)
  ultimately have "valid (cache (initial_state c) ! unat i ! k) = CHR ''0''"
    by (simp add: empty_line_def)
  then show ?thesis using hit(5) by (simp add: find_hit_Some)
next
  case (cold i t mn mx mi k)
  then show ?thesis by (simp add: initial_state_def)
next
  case (evict i t mn mx mi)
  then show ?thesis by (simp add: initial_state_def)
qed

subsection \<open>Hits\<close>

lemma hit_access_eq:
  assumes d: "decompose s b addr = Inr (i, t)" and i: "unat i < length (cache st)"
    and len: "E \<le> length (cache st ! unat i)"
    and j: "j < E" "valid (cache st ! unat i ! j) = CHR ''1''" "tag (cache st ! unat i ! j) = t"
    and sc: "scan_min_max (cache st ! unat i) E = (mn, mx, mi)"
  shows "\<exists>k\<le>j. valid (cache st ! unat i ! k) = CHR ''1'' \<and> tag (cache st ! unat i ! k) = t
      \<and> (tags_unique E (cache st ! unat i) \<longrightarrow> k = j)
      \<and> accessData s b E addr st =
          (if hit_count st = INT_MAX \<or> mx = INT_MAX then Inl Signed_Overflow
           else Inr (st\<lparr>hit_count := hit_count st + 1,
                         cache := (cache st)[unat i :=
                           (cache st ! unat i)[k := (cache st ! unat i ! k)\<lparr>counter := mx + 1\<rparr>]]\<rparr>))"
proof -
  let ?ls = "cache st ! unat i"
  have "find_hit ?ls E t \<noteq> None" using j by (auto simp add: find_hit_None)
  then obtain k where f: "find_hit ?ls E t = Some k" by auto
  then have k: "k < E" "valid (?ls ! k) = CHR ''1''" "tag (?ls ! k) = t"
    and first: "\<forall>j'<k. \<not> (valid (?ls ! j') = CHR ''1'' \<and> tag (?ls ! j') = t)"
    by (simp_all add: find_hit_Some)
  have kj: "k \<le> j"
  proof (rule ccontr)
    assume "\<not> k \<le> j"
    then have "j < k" by simp
    with first j show False by blast
  qed
  have u: "tags_unique E ?ls \<longrightarrow> k = j"
    using k j unfolding tags_unique_def by blast
  have "accessData s b E addr st =
          (if hit_count st = INT_MAX \<or> mx = INT_MAX then Inl Signed_Overflow
           else Inr (st\<lparr>hit_count := hit_count st + 1,
                         cache := (cache st)[unat i := ?ls[k := (?ls ! k)\<lparr>counter := mx + 1\<rparr>]]\<rparr>))"
    by (simp add: accessData_at [OF d i len sc] f set_line_def)
  with kj k u show ?thesis by blast
qed

lemma hit_repeat:
  assumes d: "decompose s b addr = Inr (i, t)"
  shows "unat i < length (cache st) \<Longrightarrow> E \<le> length (cache st ! unat i) \<Longrightarrow> j < E \<Longrightarrow>
     valid (cache st ! unat i ! j) = CHR ''1'' \<Longrightarrow> tag (cache st ! unat i ! j) = t \<Longrightarrow>
     replayTrace s b E (replicate n (CHR ''L'', addr)) st = Inr st' \<Longrightarrow>
     miss_count st' = miss_count st \<and> eviction_count st' = eviction_count st
       \<and> hit_count st' = hit_count st + int n"
proof (induction n arbitrary: st)
  case 0
  then show ?case by simp
next
  case (Suc n)
  let ?ls = "cache st ! unat i"
  obtain mn mx mi where sc: "scan_min_max ?ls E = (mn, mx, mi)"
    by (cases "scan_min_max ?ls E") auto
  from hit_access_eq [OF d Suc.prems(1-5) sc]
  obtain k where k: "k \<le> j" "valid (?ls ! k) = CHR ''1''" "tag (?ls ! k) = t"
    and eq: "accessData s b E addr st =
          (if hit_count st = INT_MAX \<or> mx = INT_MAX then Inl Signed_Overflow
           else Inr (st\<lparr>hit_count := hit_count st + 1,
                         cache := (cache st)[unat i := ?ls[k := (?ls ! k)\<lparr>counter := mx + 1\<rparr>]]\<rparr>))"
    by blast
  define st1 where "st1 = st\<lparr>hit_count := hit_count st + 1,
      cache := (cache st)[unat i := ?ls[k := (?ls ! k)\<lparr>counter := mx + 1\<rparr>]]\<rparr>"
  have a: "accessData s b E addr st = Inr st1"
    and r: "replayTrace s b E (replicate n (CHR ''L'', addr)) st1 = Inr st'"
    using Suc.prems(6) eq by (auto simp add: st1_def split: if_splits sum.splits)
  have c1: "cache st1 ! unat i = ?ls[k := (?ls ! k)\<lparr>counter := mx + 1\<rparr>]"
    using Suc.prems(1) by (simp add: st1_def)
  have p1: "unat i < length (cache st1)" using Suc.prems(1) by (simp add: st1_def)
  have p2: "E \<le> length (cache st1 ! unat i)" using Suc.prems(2) by (simp add: c1)
  have jl: "j < length ?ls" using Suc.prems(2,3) by simp
  have p3: "valid (cache st1 ! unat i ! j) = CHR ''1''"
    using Suc.prems(4) jl by (cases "j = k") (simp_all add: c1)
  have p4: "tag (cache st1 ! unat i ! j) = t"
    using Suc.prems(5) jl by (cases "j = k") (simp_all add: c1)
  from Suc.IH [OF p1 p2 Suc.prems(3) p3 p4 r] show ?case
    by (simp add: st1_def)
qed

lemma one_line_scan: "scan_min_max (cache (one_line_state 7) ! 0) 1 = (7, 7, 0)"
  by (simp add: access_eval one_line_state_def)

lemma decompose_0: "decompose 1 1 0 = Inr (0, 0)"
  by (simp add: decompose_exact)

lemma hit_run_3:
  "replayTrace 1 1 1 (replicate 3 (CHR ''L'', 0)) (one_line_state 7) = Inr (one_line_state 10)"
  using hit_run [of 7 3] by simp

subsection \<open>Direct-mapped sets\<close>

lemma filled_stays:
  assumes a: "accessData s b 1 addr st = Inr st'" and n: "n < length (cache st)"
    and l: "cache st ! n = [l]" and v: "valid l = CHR ''1''"
  shows "\<exists>l'. cache st' ! n = [l'] \<and> valid l' = CHR ''1'' \<and> n < length (cache st')"
proof -
  have upd: "\<exists>l'. cache (set_line st0 i k new) ! n = [l'] \<and> valid l' = CHR ''1''
      \<and> n < length (cache (set_line st0 i k new))"
    if "cache st0 = cache st" "k < 1" "i = n \<longrightarrow> valid new = CHR ''1''" for st0 i k new
    using that n l v by (cases "i = n") simp_all
  from a show ?thesis
  proof (cases rule: accessData_cases)
    case (hit i t mn mx mi k)
    have k: "k < 1" using hit(5) by (simp add: find_hit_Some)
    have "unat i = n \<longrightarrow> valid ((cache st ! unat i ! k)\<lparr>counter := mx + 1\<rparr>) = CHR ''1''"
      using k l v by simp
    then show ?thesis unfolding hit(8) using k by (intro upd) simp_all
  next
    case (cold i t mn mx mi k)
    have k: "k < 1" using cold(6) by (simp add: find_empty_Some)
    show ?thesis unfolding cold(9) using k by (intro upd) simp_all
  next
    case (evict i t mn mx mi)
    have k: "nat mi < 1" using evict(10,11) by simp
    have "unat i = n \<longrightarrow>
        valid ((cache st ! unat i ! nat mi)\<lparr>tag := t, counter := mx + 1\<rparr>) = CHR ''1''"
      using k l v by simp
    then show ?thesis unfolding evict(12) using k by (intro upd) simp_all
  qed
qed

lemma filled_stays_replay:
  "replayTrace s b 1 evs st = Inr st1 \<Longrightarrow> n < length (cache st) \<Longrightarrow> cache st ! n = [l] \<Longrightarrow>
     valid l = CHR ''1'' \<Longrightarrow>
     \<exists>l1. cache st1 ! n = [l1] \<and> valid l1 = CHR ''1'' \<and> n < length (cache st1)"
proof (induction evs arbitrary: st l)
  case Nil
  then show ?case by simp
next
  case (Cons ev evs)
  obtain c addr where ev: "ev = (c, addr)" by (cases ev)
  consider (one) "c = CHR ''L'' \<or> c = CHR ''S''" | (two) "c = CHR ''M''"
    | (skip) "c \<noteq> CHR ''L''" "c \<noteq> CHR ''S''" "c \<noteq> CHR ''M''" by blast
  then show ?case
  proof cases
    case one
    then obtain st' where a: "accessData s b 1 addr st = Inr st'"
      and r: "replayTrace s b 1 evs st' = Inr st1"
      using Cons.prems(1) ev by (auto split: sum.splits if_splits)
    from filled_stays [OF a Cons.prems(2-4)] obtain l' where
      "cache st' ! n = [l']" "valid l' = CHR ''1''" "n < length (cache st')" by blast
    then show ?thesis using Cons.IH [OF r] by blast
  next
    case two
    then obtain st' st'' where a: "accessData s b 1 addr st = Inr st'"
      and a2: "accessData s b 1 addr st' = Inr st''"
      and r: "replayTrace s b 1 evs st'' = Inr st1"
      using Cons.prems(1) ev by (auto split: sum.splits)
    from filled_stays [OF a Cons.prems(2-4)] obtain l' where
      l': "cache st' ! n = [l']" "valid l' = CHR ''1''" "n < length (cache st')" by blast
    from filled_stays [OF a2 l'(3) l'(1) l'(2)] obtain l'' where
      "cache st'' ! n = [l'']" "valid l'' = CHR ''1''" "n < length (cache st'')" by blast
    then show ?thesis using Cons.IH [OF r] by blast
  next
    case skip
    then have r: "replayTrace s b 1 evs st = Inr st1"
      using Cons.prems(1) ev by simp
    from Cons.IH [OF r Cons.prems(2-4)] show ?thesis .
  qed
qed

lemma conflict_miss:
  assumes d: "decompose s b addr = Inr (i, t)" and l: "cache st ! unat i = [l]"
    and v: "valid l = CHR ''1''" and a: "accessData s b 1 addr st = Inr st'"
  shows "(tag l \<noteq> t \<longrightarrow> miss_count st' = miss_count st + 1
            \<and> eviction_count st' = eviction_count st + 1 \<and> hit_count st' = hit_count st)
       \<and> (tag l = t \<longrightarrow> hit_count st' = hit_count st + 1 \<and> miss_count st' = miss_count st
            \<and> eviction_count st' = eviction_count st)"
  using a
proof (cases rule: accessData_cases)
  case (hit i' t' mn mx mi k)
  have e: "i' = i" "t' = t" using d hit(1) by simp_all
  have "k < 1" using hit(5) by (simp add: find_hit_Some)
  then have "tag l = t" using hit(5) l e by (simp add: find_hit_Some)
  then show ?thesis using hit(8) by simp
next
  case (cold i' t' mn mx mi k)
  have e: "i' = i" "t' = t" using d cold(1) by simp_all
  have "k < 1" using cold(6) by (simp add: find_empty_Some)
  then have "valid l = CHR ''0''" using cold(6) l e by (simp add: find_empty_Some)
  with v show ?thesis by simp
next
  case (evict i' t' mn mx mi)
  have e: "i' = i" "t' = t" using d evict(1) by simp_all
  have "tag l \<noteq> t" using evict(5) l v e by (simp add: find_hit_None)
  then show ?thesis using evict(12) by simp
qed

lemma one_line_step:
  "replayTrace 1 1 1 [(CHR ''L'', 0)] (one_line_state 1) = Inr (one_line_state 2)"
  using hit_run [of 1 1] by simp

lemma evict_access_2:
  "accessData 1 1 1 4 (one_line_state 2) =
     Inr \<lparr>cache = [[\<lparr>valid = CHR ''1'', tag = 1, counter = 3\<rparr>], [empty_line]],
          miss_count = 2, hit_count = 1, eviction_count = 1\<rparr>"
  by (simp add: access_eval one_line_state_def)


lemma init_1_2: "initCache 1 2 = Inr [[empty_line, empty_line], [empty_line, empty_line]]"
  by (simp add: initCache_def numeral_2_eq_2)

lemma decompose_8: "decompose 1 1 8 = Inr (0, 2)"
  by (simp add: decompose_exact)

subsection \<open>Runs that complete\<close>

lemma bounded_inv_init: "initCache s E = Inr c \<Longrightarrow> bounded_inv s E (initial_state c)"
proof -
  assume c: "initCache s E = Inr c"
  have "counter (c ! n ! j) = 0" if "n < length c" "j < E" for n j
    using initCache_lines [OF c that(1)] that(2) by (simp add: empty_line_def)
  then show ?thesis
    using cache_inv_init [OF c] by (simp add: bounded_inv_def initial_state_def)
qed

lemma counter_bound_update:
  assumes b: "\<forall>n<length c. \<forall>j<E. counter (c ! n ! j) \<le> m"
    and i: "i < length c" and len: "length (c ! i) = E"
    and new: "counter new \<le> m + 1"
  shows "\<forall>n<length (c[i := (c ! i)[k := new]]). \<forall>j<E.
           counter (c[i := (c ! i)[k := new]] ! n ! j) \<le> m + 1"
proof (intro allI impI)
  fix n j
  assume n: "n < length (c[i := (c ! i)[k := new]])" and j: "j < E"
  have old: "counter (c ! n ! j) \<le> m + 1" using b n j by fastforce
  show "counter (c[i := (c ! i)[k := new]] ! n ! j) \<le> m + 1"
  proof (cases "n = i")
    case True
    show ?thesis
    proof (cases "j = k")
      case True
      with \<open>n = i\<close> i len j new show ?thesis by simp
    next
      case False
      with \<open>n = i\<close> i old show ?thesis by simp
    qed
  next
    case False
    with old show ?thesis by simp
  qed
qed

lemma accessData_bounded:
  assumes a: "accessData s b E addr st = Inr st'" and inv: "bounded_inv s E st"
  shows "bounded_inv s E st'"
proof -
  have ci: "cache_inv s E (cache st)" using inv by (simp add: bounded_inv_def)
  have ci': "cache_inv s E (cache st')" by (rule accessData_inv [OF a ci])
  have cb: "\<forall>n<length (cache st). \<forall>j<E. counter (cache st ! n ! j) \<le> hit_count st + miss_count st"
    using inv by (simp add: bounded_inv_def)
  have mxb: "mx \<le> hit_count st + miss_count st"
    if "scan_min_max (cache st ! unat i) E = (mn, mx, mi)" "unat i < length (cache st)"
    for i mn mx mi
  proof -
    from scan_max [OF that(1)] have "mx = 0 \<or> (\<exists>j<E. counter (cache st ! unat i ! j) = mx)"
      by simp
    then show ?thesis
    proof
      assume "mx = 0"
      then show ?thesis using inv by (simp add: bounded_inv_def)
    next
      assume "\<exists>j<E. counter (cache st ! unat i ! j) = mx"
      then show ?thesis using cb that(2) by auto
    qed
  qed
  have len: "length (cache st ! unat i) = E" if "unat i < length (cache st)" for i :: mem_addr_t
    using ci that by (simp add: cache_inv_def set_inv_def)
  from a show ?thesis
  proof (cases rule: accessData_cases)
    case (hit i t mn mx mi k)
    have "\<forall>n<length (cache st'). \<forall>j<E.
        counter (cache st' ! n ! j) \<le> hit_count st + miss_count st + 1"
      unfolding hit(8) using mxb [OF hit(4) hit(2)]
      by (simp add: counter_bound_update [OF cb hit(2) len [OF hit(2)]])
    then show ?thesis using inv ci' by (simp add: bounded_inv_def hit(8) ac_simps)
  next
    case (cold i t mn mx mi k)
    have "\<forall>n<length (cache st'). \<forall>j<E.
        counter (cache st' ! n ! j) \<le> hit_count st + miss_count st + 1"
      unfolding cold(9) using mxb [OF cold(4) cold(2)]
      by (simp add: counter_bound_update [OF cb cold(2) len [OF cold(2)]])
    then show ?thesis using inv ci' by (simp add: bounded_inv_def cold(9) ac_simps)
  next
    case (evict i t mn mx mi)
    have "\<forall>n<length (cache st'). \<forall>j<E.
        counter (cache st' ! n ! j) \<le> hit_count st + miss_count st + 1"
      unfolding evict(12) using mxb [OF evict(4) evict(2)]
      by (simp add: counter_bound_update [OF cb evict(2) len [OF evict(2)]])
    then show ?thesis using inv ci' by (simp add: bounded_inv_def evict(12) ac_simps)
  qed
qed

lemma accessData_defined:
  assumes inv: "bounded_inv s E st" and E: "0 < E" and sb: "s + b < 64" and s: "s \<le> 52"
    and few: "hit_count st + miss_count st < 5000"
  shows "\<exists>st'. accessData s b E addr st = Inr st'"
proof -
  have ne: "(s, b) \<noteq> (53, 1)" using s by simp
  have s53: "s \<le> 53" using s by simp
  define i where "i = drop_bit b addr AND (2 ^ s - 1)"
  define t where "t = drop_bit (s + b) addr"
  have d: "decompose s b addr = Inr (i, t)"
    using decompose_exact [OF sb s53 ne] by (simp add: i_def t_def)
  have ci: "cache_inv s E (cache st)" using inv by (simp add: bounded_inv_def)
  have il: "unat i < length (cache st)"
    using set_index_bound [of "drop_bit b addr" s] ci by (simp add: i_def cache_inv_def)
  have len: "length (cache st ! unat i) = E"
    using ci il by (simp add: cache_inv_def set_inv_def)
  then have len': "E \<le> length (cache st ! unat i)" by simp
  obtain mn mx mi where sc: "scan_min_max (cache st ! unat i) E = (mn, mx, mi)"
    by (cases "scan_min_max (cache st ! unat i) E") auto
  have cb: "\<forall>j<E. counter (cache st ! unat i ! j) \<le> hit_count st + miss_count st"
    using inv il by (simp add: bounded_inv_def)
  have mx: "mx < 5000"
  proof -
    from scan_max [OF sc] have "mx = 0 \<or> (\<exists>j<E. counter (cache st ! unat i ! j) = mx)" by simp
    then show ?thesis using cb few by auto
  qed
  have mi: "0 \<le> mi \<and> mi < int E"
  proof -
    have "counter (cache st ! unat i ! 0) < 5000" using cb E few by fastforce
    then have "\<not> (\<forall>j<E. 5000 \<le> counter (cache st ! unat i ! j))" using E by fastforce
    with scan_min [OF sc] show ?thesis by auto
  qed
  have small: "hit_count st < 5000" "miss_count st < 5000" "eviction_count st < 5000"
    using inv few by (simp_all add: bounded_inv_def)
  show ?thesis
    unfolding accessData_at [OF d il len' sc]
    using mx mi small by (simp add: INT_MAX_def split: option.splits)
qed

lemma accesses_nonneg: "0 \<le> accesses evs"
  by (induction evs) auto

lemma replayTrace_defined:
  "bounded_inv s E st \<Longrightarrow> 0 < E \<Longrightarrow> s + b < 64 \<Longrightarrow> s \<le> 52 \<Longrightarrow>
     hit_count st + miss_count st + accesses evs \<le> 5000 \<Longrightarrow>
     \<exists>st'. replayTrace s b E evs st = Inr st'"
proof (induction evs arbitrary: st)
  case Nil
  then show ?case by simp
next
  case (Cons ev evs)
  obtain c addr where ev: "ev = (c, addr)" by (cases ev)
  note nn = accesses_nonneg [of evs]
  consider (one) "c = CHR ''L'' \<or> c = CHR ''S''" | (two) "c = CHR ''M''"
    | (skip) "c \<noteq> CHR ''L''" "c \<noteq> CHR ''S''" "c \<noteq> CHR ''M''" by blast
  then show ?case
  proof cases
    case one
    have few: "hit_count st + miss_count st < 5000"
      using Cons.prems(5) one nn by (auto simp add: ev)
    from accessData_defined [OF Cons.prems(1-4) few] obtain st1 where
      a: "accessData s b E addr st = Inr st1" by blast
    have b1: "bounded_inv s E st1" by (rule accessData_bounded [OF a Cons.prems(1)])
    have "hit_count st1 + miss_count st1 = hit_count st + miss_count st + 1"
      using accessData_counts [OF a] by auto
    then have "hit_count st1 + miss_count st1 + accesses evs \<le> 5000"
      using Cons.prems(5) one by (auto simp add: ev)
    from Cons.IH [OF b1 Cons.prems(2-4) this] obtain st' where
      "replayTrace s b E evs st1 = Inr st'" by blast
    then show ?thesis using a one by (auto simp add: ev)
  next
    case two
    have few: "hit_count st + miss_count st < 5000"
      using Cons.prems(5) two nn by (auto simp add: ev)
    from accessData_defined [OF Cons.prems(1-4) few] obtain st1 where
      a: "accessData s b E addr st = Inr st1" by blast
    have b1: "bounded_inv s E st1" by (rule accessData_bounded [OF a Cons.prems(1)])
    have c1: "hit_count st1 + miss_count st1 = hit_count st + miss_count st + 1"
      using accessData_counts [OF a] by auto
    then have few1: "hit_count st1 + miss_count st1 < 5000"
      using Cons.prems(5) two nn by (auto simp add: ev)
    from accessData_defined [OF b1 Cons.prems(2-4) few1] obtain st2 where
      a2: "accessData s b E addr st1 = Inr st2" by blast
    have b2: "bounded_inv s E st2" by (rule accessData_bounded [OF a2 b1])
    have "hit_count st2 + miss_count st2 = hit_count st1 + miss_count st1 + 1"
      using accessData_counts [OF a2] by auto
    then have "hit_count st2 + miss_count st2 + accesses evs \<le> 5000"
      using Cons.prems(5) two c1 by (auto simp add: ev)
    from Cons.IH [OF b2 Cons.prems(2-4) this] obtain st' where
      "replayTrace s b E evs st2 = Inr st'" by blast
    then show ?thesis using a a2 two by (auto simp add: ev)
  next
    case skip
    then have "hit_count st + miss_count st + accesses evs \<le> 5000"
      using Cons.prems(5) by (simp add: ev)
    from Cons.IH [OF Cons.prems(1-4) this] obtain st' where
      "replayTrace s b E evs st = Inr st'" by blast
    then show ?thesis using skip by (auto simp add: ev)
  qed
qed

subsection \<open>Eviction and Modify below the sentinel\<close>

lemma evict_overwrites_min:
  assumes a: "accessData s b E addr st = Inr st'" and d: "decompose s b addr = Inr (i, t)"
    and nh: "find_hit (cache st ! unat i) E t = None"
    and ne: "find_empty (cache st ! unat i) E = None"
    and sc: "scan_min_max (cache st ! unat i) E = (mn, mx, mi)"
  shows "\<exists>m<E. (\<forall>j<E. counter (cache st ! unat i ! m) \<le> counter (cache st ! unat i ! j))
      \<and> (\<forall>j<m. counter (cache st ! unat i ! m) < counter (cache st ! unat i ! j))
      \<and> (\<forall>j<E. counter (cache st ! unat i ! j) \<le> mx)
      \<and> st' = st\<lparr>miss_count := miss_count st + 1, eviction_count := eviction_count st + 1,
                   cache := (cache st)[unat i :=
                     (cache st ! unat i)[m := (cache st ! unat i ! m)\<lparr>tag := t, counter := mx + 1\<rparr>]]\<rparr>"
  using a
proof (cases rule: accessData_cases)
  case (hit i' t' mn' mx' mi' k)
  then show ?thesis using d nh by simp
next
  case (cold i' t' mn' mx' mi' k)
  then show ?thesis using d ne by simp
next
  case (evict i' t' mn' mx' mi')
  have e: "i' = i" "t' = t" using d evict(1) by simp_all
  have e2: "mn' = mn" "mx' = mx" "mi' = mi" using sc evict(4) e by simp_all
  from scan_min [OF sc] evict(10) e2
  have m: "nat mi < E" "\<forall>j<E. counter (cache st ! unat i ! nat mi) \<le> counter (cache st ! unat i ! j)"
    "\<forall>j<nat mi. counter (cache st ! unat i ! nat mi) < counter (cache st ! unat i ! j)"
    by auto
  have mxb: "\<forall>j<E. counter (cache st ! unat i ! j) \<le> mx" using scan_max [OF sc] by simp
  have "st' = st\<lparr>miss_count := miss_count st + 1, eviction_count := eviction_count st + 1,
                   cache := (cache st)[unat i :=
                     (cache st ! unat i)[nat mi :=
                        (cache st ! unat i ! nat mi)\<lparr>tag := t, counter := mx + 1\<rparr>]]\<rparr>"
    using evict(12) e e2 by (simp add: set_line_def)
  with m mxb show ?thesis by blast
qed

lemma modify_miss_then_hit:
  assumes inv: "cache_inv s E (cache st)" and d: "decompose s b addr = Inr (i, t)"
    and nh: "find_hit (cache st ! unat i) E t = None"
    and r: "replayTrace s b E [(CHR ''M'', addr)] st = Inr st'"
  shows "miss_count st' = miss_count st + 1 \<and> hit_count st' = hit_count st + 1"
proof -
  obtain st1 where a: "accessData s b E addr st = Inr st1"
    and a2: "accessData s b E addr st1 = Inr st'"
    using r by (auto split: sum.splits)
  have c1: "miss_count st1 = miss_count st + 1 \<and> hit_count st1 = hit_count st
      \<and> unat i < length (cache st1) \<and> E \<le> length (cache st1 ! unat i)
      \<and> (\<exists>k<E. valid (cache st1 ! unat i ! k) = CHR ''1'' \<and> tag (cache st1 ! unat i ! k) = t)"
    using a
  proof (cases rule: accessData_cases)
    case (hit i' t' mn mx mi k)
    then show ?thesis using d nh by simp
  next
    case (cold i' t' mn mx mi k)
    have e: "i' = i" "t' = t" using d cold(1) by simp_all
    have k: "k < E" using cold(6) by (simp add: find_empty_Some)
    have kl: "k < length (cache st ! unat i)" using k cold(3) e by simp
    show ?thesis
      using cold(2,3) e k kl by (auto simp add: cold(9))
  next
    case (evict i' t' mn mx mi)
    have e: "i' = i" "t' = t" using d evict(1) by simp_all
    have k: "nat mi < E" using evict(10,11) by simp
    have kl: "nat mi < length (cache st ! unat i)" using k evict(3) e by simp
    have si: "set_inv E (cache st ! unat i)" using inv evict(2) e by (simp add: cache_inv_def)
    have v: "valid (cache st ! unat i ! nat mi) = CHR ''1''"
      using si k evict(6) e by (auto simp add: set_inv_def find_empty_None)
    show ?thesis
      using evict(2,3) e k kl v by (auto simp add: evict(12))
  qed
  then obtain k where k: "k < E" "valid (cache st1 ! unat i ! k) = CHR ''1''"
    "tag (cache st1 ! unat i ! k) = t" by blast
  obtain mn mx mi where sc: "scan_min_max (cache st1 ! unat i) E = (mn, mx, mi)"
    by (cases "scan_min_max (cache st1 ! unat i) E") auto
  from hit_access_eq [OF d _ _ k sc] c1 a2
  have "hit_count st' = hit_count st1 + 1 \<and> miss_count st' = miss_count st1"
    by (auto split: if_splits)
  with c1 show ?thesis by simp
qed

section \<open>The claims\<close>

text \<open>
  C1.  The claim: every access that takes the eviction branch overwrites the line of
  minimum recency (lowest index on ties).  The code: after 5000 loads of address 0 (geometry
  \<open>s = b = E = 1\<close>) a load of address 4 takes the eviction branch (tag 1 is not resident, no
  line of set 0 is empty) and overwrites no line of the set: it indexes the set at -1.
\<close>

theorem eviction_at_sentinel:
  "initCache 1 1 = Inr [[empty_line], [empty_line]]
   \<and> replayTrace 1 1 1 (replicate 5000 (CHR ''L'', 0))
        (initial_state [[empty_line], [empty_line]]) = Inr (one_line_state 5000)
   \<and> decompose 1 1 4 = Inr (0, 1)
   \<and> find_hit (cache (one_line_state 5000) ! 0) 1 1 = None
   \<and> find_empty (cache (one_line_state 5000) ! 0) 1 = None
   \<and> replayTrace 1 1 1 (replicate 5000 (CHR ''L'', 0) @ [(CHR ''L'', 4)])
        (initial_state [[empty_line], [empty_line]]) = Inl (Line_Out_Of_Bounds (-1))"
  by (simp add: init_1_1 run_5000 decompose_4 one_line_no_hit one_line_no_empty
      replayTrace_append evict_fails del: One_nat_def)

text \<open>
  C2.  The claim: in every reachable state the sentinel 5000 of the minimum scan is above
  every line's recency, so the scan selects a line and the eviction branch indexes inside
  the set.  The code: with \<open>s = b = E = 1\<close>, 5000 accesses to address 0 reach a state whose
  only line of set 0 has recency 5000; there the scan leaves \<open>minIndex = -1\<close>, and an access
  to address 4 (same set, other tag) writes \<^verbatim>\<open>cache[0][-1]\<close>.
\<close>

theorem sentinel_reached:
  "reachable 1 1 1 (one_line_state 5000)
   \<and> one_line_state 5000 =
       \<lparr>cache = [[\<lparr>valid = CHR ''1'', tag = 0, counter = 5000\<rparr>], [empty_line]],
        miss_count = 1, hit_count = 4999, eviction_count = 0\<rparr>
   \<and> scan_min_max (cache (one_line_state 5000) ! 0) 1 = (5000, 5000, -1)
   \<and> accessData 1 1 1 4 (one_line_state 5000) = Inl (Line_Out_Of_Bounds (-1))"
  using reachable_5000 scan_fails evict_fails by (simp add: one_line_state_def)

text \<open>
  C3.  For every geometry and every trace, starting from the initialised cache: when
  \<^verbatim>\<open>replayTrace\<close> has processed the whole trace, \<open>hit_count + miss_count\<close> is the number
  of calls of \<^verbatim>\<open>accessData\<close> (one for each L or S line, two for each M line, none for
  any other line); it does process the whole trace whenever \<open>E\<close> is positive,
  \<open>s + b \<le> 63\<close> and the trace makes at most 5000 accesses; and every call of
  \<^verbatim>\<open>accessData\<close> increments exactly one of the two counters.
\<close>

theorem hit_plus_miss_counts_accesses:
  assumes "initCache s E = Inr c"
  shows "(\<forall>st. replayTrace s b E evs (initial_state c) = Inr st \<longrightarrow>
            hit_count st + miss_count st = accesses evs)
    \<and> (0 < E \<and> s + b < 64 \<and> accesses evs \<le> 5000 \<longrightarrow>
          (\<exists>st. replayTrace s b E evs (initial_state c) = Inr st))
    \<and> (\<forall>addr st1 st2. accessData s b E addr st1 = Inr st2 \<longrightarrow>
          (hit_count st2 = hit_count st1 + 1 \<and> miss_count st2 = miss_count st1)
        \<or> (hit_count st2 = hit_count st1 \<and> miss_count st2 = miss_count st1 + 1))"
proof (intro conjI allI impI)
  fix st
  assume "replayTrace s b E evs (initial_state c) = Inr st"
  from replayTrace_counts [OF this]
  show "hit_count st + miss_count st = accesses evs" by (simp add: initial_state_def)
next
  assume g: "0 < E \<and> s + b < 64 \<and> accesses evs \<le> 5000"
  have s: "s \<le> 52" using assms by (simp add: initCache_def split: if_splits)
  have "hit_count (initial_state c) + miss_count (initial_state c) + accesses evs \<le> 5000"
    using g by (simp add: initial_state_def)
  with replayTrace_defined [OF bounded_inv_init [OF assms] _ _ s] g
  show "\<exists>st. replayTrace s b E evs (initial_state c) = Inr st" by blast
next
  fix addr st1 st2
  assume "accessData s b E addr st1 = Inr st2"
  from accessData_counts [OF this]
  show "(hit_count st2 = hit_count st1 + 1 \<and> miss_count st2 = miss_count st1)
        \<or> (hit_count st2 = hit_count st1 \<and> miss_count st2 = miss_count st1 + 1)"
    by auto
qed

theorem hit_plus_miss_counts_accesses_witness:
  "initCache 1 1 = Inr [[empty_line], [empty_line]]
   \<and> replayTrace 1 1 1 [(CHR ''L'', 0), (CHR ''M'', 0), (CHR ''I'', 8), (CHR ''S'', 4)]
        (initial_state [[empty_line], [empty_line]])
      = Inr \<lparr>cache = [[\<lparr>valid = CHR ''1'', tag = 1, counter = 4\<rparr>], [empty_line]],
             miss_count = 2, hit_count = 2, eviction_count = 1\<rparr>
   \<and> (2::int) + 2 = accesses [(CHR ''L'', 0), (CHR ''M'', 0), (CHR ''I'', 8), (CHR ''S'', 4)]
   \<and> (0::nat) < 1 \<and> (1::nat) + 1 < 64
   \<and> accesses [(CHR ''L'', 0), (CHR ''M'', 0), (CHR ''I'', 8), (CHR ''S'', 4)] \<le> 5000
   \<and> accessData 1 1 1 4 (one_line_state 1)
      = Inr \<lparr>cache = [[\<lparr>valid = CHR ''1'', tag = 1, counter = 2\<rparr>], [empty_line]],
             miss_count = 2, hit_count = 0, eviction_count = 1\<rparr>
   \<and> miss_count \<lparr>cache = [[\<lparr>valid = CHR ''1'', tag = 1, counter = 2\<rparr>], [empty_line]],
             miss_count = 2, hit_count = 0, eviction_count = 1\<rparr>
      = miss_count (one_line_state 1) + 1"
  using hit_plus_miss_counts_accesses [OF init_1_1, of 1
      "[(CHR ''L'', 0), (CHR ''M'', 0), (CHR ''I'', 8), (CHR ''S'', 4)]"]
    init_1_1 example_trace evict_access
  by (simp add: one_line_state_def)

text \<open>
  C4.  \<open>eviction_count \<le> miss_count\<close> in every reachable state: both are zero initially,
  every call of \<^verbatim>\<open>accessData\<close> preserves the inequality, and a call that changes
  \<open>eviction_count\<close> increments it by one and increments \<open>miss_count\<close> too.
\<close>

theorem eviction_le_miss:
  "(initCache s E = Inr c \<longrightarrow>
      eviction_count (initial_state c) = 0 \<and> miss_count (initial_state c) = 0)
   \<and> (accessData s b E addr st = Inr st' \<longrightarrow> eviction_count st \<le> miss_count st \<longrightarrow>
        eviction_count st' \<le> miss_count st')
   \<and> (accessData s b E addr st = Inr st' \<longrightarrow> eviction_count st' \<noteq> eviction_count st \<longrightarrow>
        eviction_count st' = eviction_count st + 1 \<and> miss_count st' = miss_count st + 1)
   \<and> (reachable s b E st \<longrightarrow> eviction_count st \<le> miss_count st)"
proof (intro conjI impI)
  show "eviction_count (initial_state c) = 0" "miss_count (initial_state c) = 0"
    by (simp_all add: initial_state_def)
next
  assume "accessData s b E addr st = Inr st'" "eviction_count st \<le> miss_count st"
  then show "eviction_count st' \<le> miss_count st'"
    using accessData_counts [of s b E addr st st'] by auto
next
  assume a: "accessData s b E addr st = Inr st'" "eviction_count st' \<noteq> eviction_count st"
  then show "eviction_count st' = eviction_count st + 1" "miss_count st' = miss_count st + 1"
    using accessData_counts [of s b E addr st st'] by auto
next
  assume "reachable s b E st"
  then show "eviction_count st \<le> miss_count st"
    using reachable_evict_le_miss by blast
qed

theorem eviction_le_miss_witness:
  "initCache 1 1 = Inr [[empty_line], [empty_line]]
   \<and> eviction_count (initial_state [[empty_line], [empty_line]]) = 0
   \<and> miss_count (initial_state [[empty_line], [empty_line]]) = 0
   \<and> accessData 1 1 1 4 (one_line_state 1)
      = Inr \<lparr>cache = [[\<lparr>valid = CHR ''1'', tag = 1, counter = 2\<rparr>], [empty_line]],
             miss_count = 2, hit_count = 0, eviction_count = 1\<rparr>
   \<and> eviction_count (one_line_state 1) \<le> miss_count (one_line_state 1)
   \<and> (1::int) \<noteq> eviction_count (one_line_state 1)
   \<and> (1::int) \<le> 2
   \<and> reachable 1 1 1 (one_line_state 1)"
  using eviction_le_miss [of 1 1 "[[empty_line], [empty_line]]" 1 4 "one_line_state 1"
      "\<lparr>cache = [[\<lparr>valid = CHR ''1'', tag = 1, counter = 2\<rparr>], [empty_line]],
             miss_count = 2, hit_count = 0, eviction_count = 1\<rparr>"]
    init_1_1 evict_access reachable_one
  by (simp add: one_line_state_def)

text \<open>
  C5, amended.  For every 64-bit address and every geometry with positive \<open>s\<close> and \<open>b\<close>
  such that \<open>s + b \<le> 63\<close>, \<open>s \<le> 53\<close> and \<open>(s, b) \<noteq> (53, 1)\<close>, the set number and the tag
  that \<^verbatim>\<open>accessData\<close> computes are \<open>(address >> b) & (2^s - 1)\<close> and
  \<open>address >> (s + b)\<close>, and the set number is below \<open>2^s\<close>.  (\<open>E\<close> plays no part.)
\<close>

theorem address_fields:
  assumes "0 < s" and "0 < b" and "s + b < 64" and "s \<le> 53" and "(s, b) \<noteq> (53, 1)"
  shows "decompose s b addr = Inr (drop_bit b addr AND (2 ^ s - 1), drop_bit (s + b) addr)
    \<and> unat (drop_bit b addr AND (2 ^ s - 1)) < 2 ^ s"
  using decompose_exact [OF assms(3-5)] set_index_bound by simp

theorem address_fields_witness:
  "(0::nat) < 4 \<and> (0::nat) < 5 \<and> (4::nat) + 5 < 64 \<and> (4::nat) \<le> 53 \<and> (4::nat, 5::nat) \<noteq> (53, 1)
   \<and> decompose 4 5 0x7f2a = Inr (9, 0x3f) \<and> unat (9 :: mem_addr_t) < 2 ^ 4"
  using address_fields [of 4 5 "0x7f2a"] by simp

text \<open>
  C5 as stated fails: with \<open>s = 1\<close>, \<open>b = 63\<close> the conversion of \<^verbatim>\<open>pow(2, 64)\<close> to
  64 bits (and the shift by 64) is undefined; with \<open>s = 53\<close>, \<open>b = 1\<close> the mask is rounded
  in double precision to \<open>2^54\<close> and address 2 gets set number 0 where the formula gives 1.
\<close>

theorem address_fields_counterexample:
  "decompose 1 63 4 = Inl Conversion_Out_Of_Range
   \<and> decompose 53 1 2 = Inr (0, 0)
   \<and> (drop_bit 1 (2 :: mem_addr_t) AND (2 ^ 53 - 1), drop_bit (53 + 1) (2 :: mem_addr_t)) = (1, 0)"
proof (intro conjI)
  show "decompose 1 63 4 = Inl Conversion_Out_Of_Range"
    by (simp add: decompose_def set_mask_undefined)
  show "decompose 53 1 2 = Inr (0, 0)"
    unfolding decompose_def set_mask_53_1 by simp
  show "(drop_bit 1 (2 :: mem_addr_t) AND (2 ^ 53 - 1), drop_bit (53 + 1) (2 :: mem_addr_t)) = (1, 0)"
    by simp
qed

text \<open>
  C6.  Associativity 2, an empty target set, three addresses of that set with distinct tags
  A, B, C, accessed in the order A, B, A, C from the initial counters: after A, B, A the set
  holds A (recency 3) in line 0 and B (recency 2) in line 1; the access to C evicts the line
  holding B and leaves A in place.
\<close>

theorem lru_evicts_least_recent:
  assumes dA: "decompose s b aA = Inr (i, A)" and dB: "decompose s b aB = Inr (i, B)"
    and dC: "decompose s b aC = Inr (i, C)"
    and ne: "A \<noteq> B" "A \<noteq> C" "B \<noteq> C"
    and i: "unat i < length c" and e: "c ! unat i = [empty_line, empty_line]"
  shows "replayTrace s b 2 [(CHR ''L'', aA), (CHR ''L'', aB), (CHR ''L'', aA)] (initial_state c)
      = Inr \<lparr>cache = c[unat i := [\<lparr>valid = CHR ''1'', tag = A, counter = 3\<rparr>,
                                   \<lparr>valid = CHR ''1'', tag = B, counter = 2\<rparr>]],
             miss_count = 2, hit_count = 1, eviction_count = 0\<rparr>
    \<and> replayTrace s b 2 [(CHR ''L'', aA), (CHR ''L'', aB), (CHR ''L'', aA), (CHR ''L'', aC)]
        (initial_state c)
      = Inr \<lparr>cache = c[unat i := [\<lparr>valid = CHR ''1'', tag = A, counter = 3\<rparr>,
                                   \<lparr>valid = CHR ''1'', tag = C, counter = 4\<rparr>]],
             miss_count = 3, hit_count = 1, eviction_count = 1\<rparr>"
proof -
  define st1 where "st1 = \<lparr>cache = c[unat i := [\<lparr>valid = CHR ''1'', tag = A, counter = 1\<rparr>, empty_line]],
      miss_count = 1, hit_count = 0, eviction_count = 0\<rparr>"
  define st2 where "st2 = \<lparr>cache = c[unat i := [\<lparr>valid = CHR ''1'', tag = A, counter = 1\<rparr>,
        \<lparr>valid = CHR ''1'', tag = B, counter = 2\<rparr>]],
      miss_count = 2, hit_count = 0, eviction_count = 0\<rparr>"
  define st3 where "st3 = \<lparr>cache = c[unat i := [\<lparr>valid = CHR ''1'', tag = A, counter = 3\<rparr>,
        \<lparr>valid = CHR ''1'', tag = B, counter = 2\<rparr>]],
      miss_count = 2, hit_count = 1, eviction_count = 0\<rparr>"
  define st4 where "st4 = \<lparr>cache = c[unat i := [\<lparr>valid = CHR ''1'', tag = A, counter = 3\<rparr>,
        \<lparr>valid = CHR ''1'', tag = C, counter = 4\<rparr>]],
      miss_count = 3, hit_count = 1, eviction_count = 1\<rparr>"
  note ev = accessData_def Let_def scan_min_max_def scan_step_def find_hit_def find_empty_def
    set_line_def INT_MAX_def upt_rec empty_line_def
  have a1: "accessData s b 2 aA (initial_state c) = Inr st1"
    using i e by (simp add: ev dA initial_state_def st1_def)
  have a2: "accessData s b 2 aB st1 = Inr st2"
    using i ne by (simp add: ev dB st1_def st2_def)
  have a3: "accessData s b 2 aA st2 = Inr st3"
    using i ne by (simp add: ev dA st2_def st3_def)
  have a4: "accessData s b 2 aC st3 = Inr st4"
    using i ne ne [symmetric] by (simp add: ev dC st3_def st4_def)
  show ?thesis
    by (simp add: a1 a2 a3 a4) (simp add: st3_def st4_def)
qed

theorem lru_evicts_least_recent_witness:
  "decompose 1 1 0 = Inr (0, 0) \<and> decompose 1 1 4 = Inr (0, 1) \<and> decompose 1 1 8 = Inr (0, 2)
   \<and> (0 :: mem_addr_t) \<noteq> 1 \<and> (0 :: mem_addr_t) \<noteq> 2 \<and> (1 :: mem_addr_t) \<noteq> 2
   \<and> initCache 1 2 = Inr [[empty_line, empty_line], [empty_line, empty_line]]
   \<and> replayTrace 1 1 2 [(CHR ''L'', 0), (CHR ''L'', 4), (CHR ''L'', 0), (CHR ''L'', 8)]
        (initial_state [[empty_line, empty_line], [empty_line, empty_line]])
      = Inr \<lparr>cache = [[\<lparr>valid = CHR ''1'', tag = 0, counter = 3\<rparr>,
                        \<lparr>valid = CHR ''1'', tag = 2, counter = 4\<rparr>],
                       [empty_line, empty_line]],
             miss_count = 3, hit_count = 1, eviction_count = 1\<rparr>"
  using lru_evicts_least_recent [OF decompose_0 decompose_4 decompose_8, of
      "[[empty_line, empty_line], [empty_line, empty_line]]"]
    decompose_0 decompose_4 decompose_8 init_1_2
  by simp

text \<open>
  C7.  When the tag of the address is resident (line \<open>j\<close> of the target set is valid and
  holds it), \<^verbatim>\<open>accessData\<close> returns the state in which \<open>hit_count\<close> is one more, the
  recency of one line \<open>k\<close> holding the tag (the first one; \<open>k = j\<close> when tags are unique)
  is \<open>max + 1\<close>, and nothing else has changed: \<open>miss_count\<close>, \<open>eviction_count\<close>, every
  valid flag and tag and every other line are as before.  (It returns no state only when
  \<open>hit_count\<close> or \<open>max\<close> is \<^verbatim>\<open>INT_MAX\<close>, where the increment overflows.)  \<open>max\<close> bounds
  every recency of the set.  Repeating the access any number of times changes neither
  \<open>miss_count\<close> nor \<open>eviction_count\<close>.
\<close>

theorem hit_frame:
  assumes d: "decompose s b addr = Inr (i, t)" and i: "unat i < length (cache st)"
    and len: "E \<le> length (cache st ! unat i)"
    and j: "j < E" "valid (cache st ! unat i ! j) = CHR ''1''" "tag (cache st ! unat i ! j) = t"
    and sc: "scan_min_max (cache st ! unat i) E = (mn, mx, mi)"
  shows "(\<exists>k\<le>j. valid (cache st ! unat i ! k) = CHR ''1'' \<and> tag (cache st ! unat i ! k) = t
      \<and> (tags_unique E (cache st ! unat i) \<longrightarrow> k = j)
      \<and> accessData s b E addr st =
          (if hit_count st = INT_MAX \<or> mx = INT_MAX then Inl Signed_Overflow
           else Inr (st\<lparr>hit_count := hit_count st + 1,
                         cache := (cache st)[unat i :=
                           (cache st ! unat i)[k := (cache st ! unat i ! k)\<lparr>counter := mx + 1\<rparr>]]\<rparr>)))
    \<and> (\<forall>m<E. counter (cache st ! unat i ! m) \<le> mx)
    \<and> (mx = 0 \<or> (\<exists>m<E. counter (cache st ! unat i ! m) = mx))
    \<and> (\<forall>n st'. replayTrace s b E (replicate n (CHR ''L'', addr)) st = Inr st' \<longrightarrow>
          miss_count st' = miss_count st \<and> eviction_count st' = eviction_count st
          \<and> hit_count st' = hit_count st + int n)"
proof (intro conjI allI impI)
  show "\<exists>k\<le>j. valid (cache st ! unat i ! k) = CHR ''1'' \<and> tag (cache st ! unat i ! k) = t
      \<and> (tags_unique E (cache st ! unat i) \<longrightarrow> k = j)
      \<and> accessData s b E addr st =
          (if hit_count st = INT_MAX \<or> mx = INT_MAX then Inl Signed_Overflow
           else Inr (st\<lparr>hit_count := hit_count st + 1,
                         cache := (cache st)[unat i :=
                           (cache st ! unat i)[k := (cache st ! unat i ! k)\<lparr>counter := mx + 1\<rparr>]]\<rparr>))"
    by (rule hit_access_eq [OF assms])
next
  fix m assume "m < E"
  then show "counter (cache st ! unat i ! m) \<le> mx" using scan_max [OF sc] by simp
next
  show "mx = 0 \<or> (\<exists>m<E. counter (cache st ! unat i ! m) = mx)" using scan_max [OF sc] by simp
next
  fix n st'
  assume r: "replayTrace s b E (replicate n (CHR ''L'', addr)) st = Inr st'"
  from hit_repeat [OF d i len j r]
  show "miss_count st' = miss_count st" "eviction_count st' = eviction_count st"
    "hit_count st' = hit_count st + int n" by simp_all
qed

theorem hit_frame_witness:
  "decompose 1 1 0 = Inr (0, 0) \<and> unat (0 :: mem_addr_t) < length (cache (one_line_state 7))
   \<and> (1::nat) \<le> length (cache (one_line_state 7) ! unat (0 :: mem_addr_t)) \<and> (0::nat) < 1
   \<and> valid (cache (one_line_state 7) ! unat (0 :: mem_addr_t) ! 0) = CHR ''1''
   \<and> tag (cache (one_line_state 7) ! unat (0 :: mem_addr_t) ! 0) = 0
   \<and> scan_min_max (cache (one_line_state 7) ! unat (0 :: mem_addr_t)) 1 = (7, 7, 0)
   \<and> tags_unique 1 (cache (one_line_state 7) ! unat (0 :: mem_addr_t))
   \<and> accessData 1 1 1 0 (one_line_state 7) = Inr (one_line_state 8)
   \<and> replayTrace 1 1 1 (replicate 3 (CHR ''L'', 0)) (one_line_state 7) = Inr (one_line_state 10)
   \<and> miss_count (one_line_state 10) = miss_count (one_line_state 7)
   \<and> eviction_count (one_line_state 10) = eviction_count (one_line_state 7)
   \<and> hit_count (one_line_state 10) = hit_count (one_line_state 7) + int 3"
proof -
  have p: "unat (0 :: mem_addr_t) < length (cache (one_line_state 7))"
    "(1::nat) \<le> length (cache (one_line_state 7) ! unat (0 :: mem_addr_t))" "(0::nat) < 1"
    "valid (cache (one_line_state 7) ! unat (0 :: mem_addr_t) ! 0) = CHR ''1''"
    "tag (cache (one_line_state 7) ! unat (0 :: mem_addr_t) ! 0) = 0"
    by (simp_all add: one_line_state_def)
  have sc: "scan_min_max (cache (one_line_state 7) ! unat (0 :: mem_addr_t)) 1 = (7, 7, 0)"
    using one_line_scan by simp
  have u: "tags_unique 1 (cache (one_line_state 7) ! unat (0 :: mem_addr_t))"
    by (simp add: tags_unique_def)
  have h: "accessData 1 1 1 0 (one_line_state 7) = Inr (one_line_state 8)"
    using hit_access [of 7] by simp
  note w = hit_frame [OF decompose_0 p sc]
  have "miss_count (one_line_state 10) = miss_count (one_line_state 7)
      \<and> eviction_count (one_line_state 10) = eviction_count (one_line_state 7)
      \<and> hit_count (one_line_state 10) = hit_count (one_line_state 7) + int 3"
    using w hit_run_3 by blast
  with decompose_0 p sc u h hit_run_3 show ?thesis by blast
qed

text \<open>
  C8.  The claim: a Modify at an address whose tag is not resident gives one miss, installs
  the tag, and then one hit.  The code: after 5000 loads of address 0 (geometry
  \<open>s = b = E = 1\<close>) tag 1 is not resident in set 0, and the first access of a Modify of
  address 4 installs nothing in the set: it indexes the set at -1, so no hit follows.
\<close>

theorem modify_at_sentinel:
  "replayTrace 1 1 1 (replicate 5000 (CHR ''L'', 0))
        (initial_state [[empty_line], [empty_line]]) = Inr (one_line_state 5000)
   \<and> find_hit (cache (one_line_state 5000) ! 0) 1 1 = None
   \<and> replayTrace 1 1 1 (replicate 5000 (CHR ''L'', 0) @ [(CHR ''M'', 4)])
        (initial_state [[empty_line], [empty_line]]) = Inl (Line_Out_Of_Bounds (-1))"
  by (simp add: run_5000 one_line_no_hit replayTrace_append evict_fails del: One_nat_def)

text \<open>
  C9.  Direct-mapped geometry (\<open>E = 1\<close>).  Let the single line of set \<open>n\<close> be valid in some
  state.  After any further trace the line of that set is still valid, and an access to the
  set from there whose tag differs from the tag the line holds increments \<open>miss_count\<close>
  and \<open>eviction_count\<close>; no access to the set increments \<open>miss_count\<close> without
  incrementing \<open>eviction_count\<close>.  (With the empty trace: the access right at the state
  where the line holds a different valid tag.)
\<close>

theorem direct_mapped_eviction:
  assumes n: "n < length (cache st)" and l: "cache st ! n = [l]" and v: "valid l = CHR ''1''"
    and run: "replayTrace s b 1 evs st = Inr st1"
    and d: "decompose s b addr = Inr (i, t)" and un: "unat i = n"
    and a: "accessData s b 1 addr st1 = Inr st2"
  shows "\<exists>l1. cache st1 ! n = [l1] \<and> valid l1 = CHR ''1''
      \<and> (tag l1 \<noteq> t \<longrightarrow> miss_count st2 = miss_count st1 + 1
            \<and> eviction_count st2 = eviction_count st1 + 1 \<and> hit_count st2 = hit_count st1)
      \<and> (miss_count st2 \<noteq> miss_count st1 \<longrightarrow> eviction_count st2 = eviction_count st1 + 1)"
proof -
  from filled_stays_replay [OF run n l v] obtain l1 where
    l1: "cache st1 ! n = [l1]" "valid l1 = CHR ''1''" by blast
  have l1': "cache st1 ! unat i = [l1]" using l1(1) un by simp
  from conflict_miss [OF d l1' l1(2) a] l1 show ?thesis by (cases "tag l1 = t") auto
qed

theorem direct_mapped_eviction_witness:
  "(0::nat) < length (cache (one_line_state 1))
   \<and> cache (one_line_state 1) ! 0 = [\<lparr>valid = CHR ''1'', tag = 0, counter = 1\<rparr>]
   \<and> valid \<lparr>valid = CHR ''1'', tag = 0, counter = 1\<rparr> = CHR ''1''
   \<and> replayTrace 1 1 1 [(CHR ''L'', 0)] (one_line_state 1) = Inr (one_line_state 2)
   \<and> decompose 1 1 4 = Inr (0, 1) \<and> unat (0 :: mem_addr_t) = 0
   \<and> accessData 1 1 1 4 (one_line_state 2) =
       Inr \<lparr>cache = [[\<lparr>valid = CHR ''1'', tag = 1, counter = 3\<rparr>], [empty_line]],
            miss_count = 2, hit_count = 1, eviction_count = 1\<rparr>
   \<and> cache (one_line_state 2) ! 0 = [\<lparr>valid = CHR ''1'', tag = 0, counter = 2\<rparr>]
   \<and> (2::int) = miss_count (one_line_state 2) + 1
   \<and> (1::int) = eviction_count (one_line_state 2) + 1"
proof -
  have p: "(0::nat) < length (cache (one_line_state 1))"
    "cache (one_line_state 1) ! 0 = [\<lparr>valid = CHR ''1'', tag = 0, counter = 1\<rparr>]"
    "valid \<lparr>valid = CHR ''1'', tag = 0, counter = 1\<rparr> = CHR ''1''"
    by (simp_all add: one_line_state_def)
  have u: "unat (0 :: mem_addr_t) = 0" by simp
  note w = direct_mapped_eviction [OF p one_line_step decompose_4 u evict_access_2]
  have "cache (one_line_state 2) ! 0 = [\<lparr>valid = CHR ''1'', tag = 0, counter = 2\<rparr>]
      \<and> (2::int) = miss_count (one_line_state 2) + 1
      \<and> (1::int) = eviction_count (one_line_state 2) + 1"
    using w by (simp add: one_line_state_def)
  with p one_line_step decompose_4 u evict_access_2 show ?thesis by blast
qed

text \<open>
  C10.  Tag uniqueness per set is an invariant: after \<^verbatim>\<open>initCache\<close> every line is invalid,
  and in every reachable state no two valid lines of a set hold equal tags, so the line the
  hit scan stops at is the only valid line with the target tag.  A line whose valid flag is
  not \<^verbatim>\<open>'1'\<close> never produces a hit, whatever its tag field: the first access to an
  initialised cache is a miss for every address (also for tag 0, the tag field of the fresh
  lines).
\<close>

theorem tag_uniqueness:
  "(initCache s E = Inr c \<longrightarrow> (\<forall>n<length c. \<forall>j<E. valid (c ! n ! j) = CHR ''0''))
   \<and> (reachable s b E st \<longrightarrow> (\<forall>n<length (cache st). tags_unique E (cache st ! n)))
   \<and> (tags_unique E ls \<longrightarrow> find_hit ls E t = Some k \<longrightarrow>
        (\<forall>j<E. valid (ls ! j) = CHR ''1'' \<and> tag (ls ! j) = t \<longrightarrow> j = k))
   \<and> (valid (ls' ! j') \<noteq> CHR ''1'' \<longrightarrow> find_hit ls' E t' \<noteq> Some j')
   \<and> (initCache s E = Inr c \<longrightarrow> accessData s b E addr (initial_state c) = Inr st' \<longrightarrow>
        hit_count st' = 0 \<and> miss_count st' = 1)"
proof (intro conjI impI allI)
  fix n j
  assume "initCache s E = Inr c" "n < length c" "j < E"
  then show "valid (c ! n ! j) = CHR ''0''"
    using initCache_lines [of s E c n] by (simp add: empty_line_def)
next
  fix n
  assume "reachable s b E st" "n < length (cache st)"
  then show "tags_unique E (cache st ! n)" by (rule reachable_tags_unique)
next
  fix j
  assume u: "tags_unique E ls" and f: "find_hit ls E t = Some k"
    and j: "j < E" and h: "valid (ls ! j) = CHR ''1'' \<and> tag (ls ! j) = t"
  have "k < E" "valid (ls ! k) = CHR ''1''" "tag (ls ! k) = t"
    using f by (simp_all add: find_hit_Some)
  with u j h show "j = k" unfolding tags_unique_def by blast
next
  assume "valid (ls' ! j') \<noteq> CHR ''1''"
  then show "find_hit ls' E t' \<noteq> Some j'" by (simp add: find_hit_Some)
next
  assume "initCache s E = Inr c" "accessData s b E addr (initial_state c) = Inr st'"
  then show "hit_count st' = 0" "miss_count st' = 1"
    using first_access_misses by blast+
qed

theorem tag_uniqueness_witness:
  "initCache 1 1 = Inr [[empty_line], [empty_line]]
   \<and> valid ([[empty_line], [empty_line]] ! 1 ! 0) = CHR ''0''
   \<and> reachable 1 1 1 (one_line_state 1)
   \<and> tags_unique 1 (cache (one_line_state 1) ! 0)
   \<and> find_hit (cache (one_line_state 1) ! 0) 1 0 = Some 0
   \<and> valid (cache (one_line_state 1) ! 0 ! 0) = CHR ''1''
   \<and> valid ([empty_line] ! 0) \<noteq> CHR ''1'' \<and> tag ([empty_line] ! 0) = 0
   \<and> find_hit [empty_line] 1 0 \<noteq> Some 0
   \<and> accessData 1 1 1 0 (initial_state [[empty_line], [empty_line]]) = Inr (one_line_state 1)
   \<and> hit_count (one_line_state 1) = 0 \<and> miss_count (one_line_state 1) = 1"
  using tag_uniqueness [where s = 1 and E = 1 and c = "[[empty_line], [empty_line]]" and b = 1
      and st = "one_line_state 1" and ls = "cache (one_line_state 1) ! 0" and t = 0 and k = 0
      and ls' = "[empty_line]" and j' = 0 and t' = 0 and addr = 0 and st' = "one_line_state 1"]
    init_1_1 reachable_one first_access
  by (simp add: one_line_state_def empty_line_def find_hit_Some tags_unique_def)

end
